theory Spec2Isabelle
  imports Main "HOL-Library.Signed_Division"
begin

section \<open>Errors, integers and the store\<close>

text \<open>
  Shallow embedding of \<^verbatim>\<open>aten/src/ATen/native/TensorTransformations.cpp\<close>.
  A failed \<^verbatim>\<open>TORCH_CHECK\<close> is the value \<open>Inl InvalidArgument\<close>; a memory access that
  C++ leaves undefined (outside the buffer, of the wrong element type, misaligned) is
  \<open>Inl OutOfBounds\<close>, and a read of a cell that was allocated but never written is
  \<open>Inl Uninitialized\<close>.
\<close>

datatype error = InvalidArgument | OutOfBounds | Uninitialized

definition ebind :: "error + 'a \<Rightarrow> ('a \<Rightarrow> error + 'b) \<Rightarrow> error + 'b" where
  "ebind m f = (case m of Inl e \<Rightarrow> Inl e | Inr x \<Rightarrow> f x)"

fun foldM :: "('b \<Rightarrow> 's \<Rightarrow> error + 's) \<Rightarrow> 'b list \<Rightarrow> 's \<Rightarrow> error + 's" where
  "foldM f [] s = Inr s"
| "foldM f (x # xs) s = (case f x s of Inl e \<Rightarrow> Inl e | Inr s' \<Rightarrow> foldM f xs s')"

fun mapM :: "('b \<Rightarrow> error + 'c) \<Rightarrow> 'b list \<Rightarrow> error + 'c list" where
  "mapM f [] = Inr []"
| "mapM f (x # xs) =
     (case f x of Inl e \<Rightarrow> Inl e
      | Inr y \<Rightarrow> (case mapM f xs of Inl e \<Rightarrow> Inl e | Inr ys \<Rightarrow> Inr (y # ys)))"

definition is_ok :: "error + 'a \<Rightarrow> bool" where
  "is_ok r = (case r of Inl _ \<Rightarrow> False | Inr _ \<Rightarrow> True)"

text \<open>
  \<^verbatim>\<open>int64_t\<close> values supplied by the caller (shifts, axis numbers) are integers in
  \<open>[-2^63, 2^63)\<close>; arithmetic on them wraps around as two's complement does. \<^verbatim>\<open>/\<close> and
  \<^verbatim>\<open>%\<close> of C++ truncate towards zero: they are \<open>sdiv\<close> and \<open>smod\<close>. Sizes, strides
  and offsets of an existing tensor are bounded by the address space, so their arithmetic is
  written on \<open>int\<close> directly.
\<close>

definition is_int64 :: "int \<Rightarrow> bool" where
  "is_int64 x \<longleftrightarrow> - (2 ^ 63) \<le> x \<and> x < 2 ^ 63"

definition wrap64 :: "int \<Rightarrow> int" where
  "wrap64 x = (x + 2 ^ 63) mod 2 ^ 64 - 2 ^ 63"

text \<open>
  The store is a list of buffers; a buffer identifier is its position. A buffer holds
  elements of the tensor's scalar type or \<^verbatim>\<open>int64_t\<close> values (the offset tables); a cell
  is \<open>None\<close> until it is written. Allocation appends a buffer, so an identifier that is
  not below the length of the store is fresh.
\<close>

datatype 'a buffer = Elems "'a option list" | Longs "int option list"

type_synonym 'a heap = "'a buffer list"

type_synonym ptr = "nat \<times> int"

definition load :: "'a heap \<Rightarrow> nat \<Rightarrow> int \<Rightarrow> error + 'a" where
  "load mem b k =
     (if b < length mem then
        (case mem ! b of
           Elems cells \<Rightarrow>
             (if 0 \<le> k \<and> k < int (length cells) then
                (case cells ! nat k of Some v \<Rightarrow> Inr v | None \<Rightarrow> Inl Uninitialized)
              else Inl OutOfBounds)
         | Longs _ \<Rightarrow> Inl OutOfBounds)
      else Inl OutOfBounds)"

definition store :: "'a heap \<Rightarrow> nat \<Rightarrow> int \<Rightarrow> 'a \<Rightarrow> error + 'a heap" where
  "store mem b k v =
     (if b < length mem then
        (case mem ! b of
           Elems cells \<Rightarrow>
             (if 0 \<le> k \<and> k < int (length cells) then
                Inr (mem[b := Elems (cells[nat k := Some v])])
              else Inl OutOfBounds)
         | Longs _ \<Rightarrow> Inl OutOfBounds)
      else Inl OutOfBounds)"

definition load_long :: "'a heap \<Rightarrow> nat \<Rightarrow> int \<Rightarrow> error + int" where
  "load_long mem b k =
     (if b < length mem then
        (case mem ! b of
           Longs cells \<Rightarrow>
             (if 0 \<le> k \<and> k < int (length cells) then
                (case cells ! nat k of Some v \<Rightarrow> Inr v | None \<Rightarrow> Inl Uninitialized)
              else Inl OutOfBounds)
         | Elems _ \<Rightarrow> Inl OutOfBounds)
      else Inl OutOfBounds)"

definition store_long :: "'a heap \<Rightarrow> nat \<Rightarrow> int \<Rightarrow> int \<Rightarrow> error + 'a heap" where
  "store_long mem b k v =
     (if b < length mem then
        (case mem ! b of
           Longs cells \<Rightarrow>
             (if 0 \<le> k \<and> k < int (length cells) then
                Inr (mem[b := Longs (cells[nat k := Some v])])
              else Inl OutOfBounds)
         | Elems _ \<Rightarrow> Inl OutOfBounds)
      else Inl OutOfBounds)"

text \<open>
  A \<^verbatim>\<open>char*\<close> is a buffer and a byte offset into it. \<^verbatim>\<open>*(scalar_t*)p\<close> reads the element
  at that byte offset, which has to be a multiple of the element size.
\<close>

definition ptr_add :: "ptr \<Rightarrow> int \<Rightarrow> ptr" where
  "ptr_add p k = (fst p, snd p + k)"

definition load_at :: "int \<Rightarrow> 'a heap \<Rightarrow> ptr \<Rightarrow> error + 'a" where
  "load_at es mem p =
     (if 0 < es \<and> es dvd snd p then load mem (fst p) (snd p div es) else Inl OutOfBounds)"

definition store_at :: "int \<Rightarrow> 'a heap \<Rightarrow> ptr \<Rightarrow> 'a \<Rightarrow> error + 'a heap" where
  "store_at es mem p v =
     (if 0 < es \<and> es dvd snd p then store mem (fst p) (snd p div es) v else Inl OutOfBounds)"

definition load_long_at :: "'a heap \<Rightarrow> ptr \<Rightarrow> error + int" where
  "load_long_at mem p =
     (if 8 dvd snd p then load_long mem (fst p) (snd p div 8) else Inl OutOfBounds)"

section \<open>Array views\<close>

text \<open>
  A tensor is a view of a buffer: \<open>(buffer, data offset, shape, strides, element size)\<close>,
  offset and strides in elements, element size in bytes.
\<close>

record tensor =
  buf :: nat
  storage_offset :: int
  sizes :: "int list"
  strides :: "int list"
  itemsize :: int

definition dim :: "tensor \<Rightarrow> int" where
  "dim t = int (length (sizes t))"

definition numel :: "tensor \<Rightarrow> int" where
  "numel t = prod_list (sizes t)"

fun dot :: "int list \<Rightarrow> int list \<Rightarrow> int" where
  "dot (c # cs) (s # ss) = c * s + dot cs ss"
| "dot _ _ = 0"

text \<open>All coordinates of a shape, in row-major order.\<close>

fun coords :: "int list \<Rightarrow> int list list" where
  "coords [] = [[]]"
| "coords (n # ns) = concat (map (\<lambda>i. map ((#) i) (coords ns)) (map int [0..<nat n]))"

definition tget :: "'a heap \<Rightarrow> tensor \<Rightarrow> int list \<Rightarrow> error + 'a" where
  "tget mem t c = load mem (buf t) (storage_offset t + dot c (strides t))"

definition elements :: "'a heap \<Rightarrow> tensor \<Rightarrow> (error + 'a) list" where
  "elements mem t = map (tget mem t) (coords (sizes t))"

text \<open>
  A well-formed view: one stride per axis, no negative size, a positive element size, an
  existing buffer, and every element of the view can be read.
\<close>

definition valid :: "'a heap \<Rightarrow> tensor \<Rightarrow> bool" where
  "valid mem t \<longleftrightarrow>
     length (strides t) = length (sizes t) \<and> list_all (\<lambda>n. 0 \<le> n) (sizes t) \<and>
     0 < itemsize t \<and> buf t < length mem \<and>
     list_all (\<lambda>c. is_ok (tget mem t c)) (coords (sizes t))"

text \<open>Two tensors are equal when they have the same shape and the same elements.\<close>

definition tensor_eq :: "'a heap \<Rightarrow> tensor \<Rightarrow> 'a heap \<Rightarrow> tensor \<Rightarrow> bool" where
  "tensor_eq m1 t1 m2 t2 \<longleftrightarrow> sizes t1 = sizes t2 \<and> elements m1 t1 = elements m2 t2"

definition result_eq ::
  "error + 'a heap \<times> tensor \<Rightarrow> error + 'a heap \<times> tensor \<Rightarrow> bool" where
  "result_eq r1 r2 =
     (case r1 of
        Inl e1 \<Rightarrow> (case r2 of Inl e2 \<Rightarrow> e1 = e2 | Inr _ \<Rightarrow> False)
      | Inr (m1, t1) \<Rightarrow> (case r2 of Inl _ \<Rightarrow> False | Inr (m2, t2) \<Rightarrow> tensor_eq m1 t1 m2 t2))"

section \<open>Dimension bitset\<close>

definition dim_bitset_size :: int where
  "dim_bitset_size = 64"

text \<open>
  Modelled from the spec: \<^verbatim>\<open>at::dim_list_to_bitset\<close> and \<^verbatim>\<open>maybe_wrap_dim\<close>
  (\<^verbatim>\<open>ATen/WrapDimUtilsMulti.h\<close>) are not among the sources. Section 3 and 4.1 of the
  specification: a negative axis \<open>d\<close> is normalised to \<open>d + rank\<close>; an axis outside
  \<open>[0, rank)\<close>, a duplicate axis, or a rank above the bitset width fails with
  \<open>InvalidArgument\<close>.
\<close>

definition maybe_wrap_dim :: "int \<Rightarrow> int \<Rightarrow> error + nat" where
  "maybe_wrap_dim d rank =
     (let d' = (if d < 0 then d + rank else d)
      in if 0 \<le> d' \<and> d' < rank then Inr (nat d') else Inl InvalidArgument)"

definition dim_list_to_bitset :: "int list \<Rightarrow> int \<Rightarrow> error + bool list" where
  "dim_list_to_bitset dims ndims =
     (if dim_bitset_size < ndims then Inl InvalidArgument
      else foldM (\<lambda>d seen. ebind (maybe_wrap_dim d ndims)
                   (\<lambda>i. if seen ! i then Inl InvalidArgument else Inr (seen[i := True])))
             dims (replicate (nat dim_bitset_size) False))"

section \<open>View and allocation primitives\<close>

text \<open>
  The contiguous strides of a shape, as the loop at the head of \<^verbatim>\<open>flip_old_cpu\<close> computes
  them: \<open>1\<close> on the last axis, \<open>max (size (i + 1)) 1 * stride (i + 1)\<close> before.
\<close>

fun stride_contiguous_v :: "int list \<Rightarrow> int list" where
  "stride_contiguous_v [] = []"
| "stride_contiguous_v [n] = [1]"
| "stride_contiguous_v (n # m # ms) =
     (case stride_contiguous_v (m # ms) of
        [] \<Rightarrow> []
      | s # ss \<Rightarrow> (max m 1 * s) # s # ss)"

text \<open>
  Modelled from the spec: the array library (\<^verbatim>\<open>empty\<close>, \<^verbatim>\<open>empty_like\<close>,
  \<^verbatim>\<open>as_strided\<close>, \<^verbatim>\<open>narrow\<close>, \<^verbatim>\<open>transpose_\<close>, \<^verbatim>\<open>cat\<close>, \<^verbatim>\<open>clone\<close>,
  \<^verbatim>\<open>unsqueeze\<close>, \<^verbatim>\<open>reshape\<close>, \<^verbatim>\<open>size\<close>) is not among the sources. Section 6 of the
  specification: \<open>allocate(shape, dtype)\<close> gives a new contiguous array, whose cells are
  not yet written; \<open>view_as_strided\<close>, \<open>narrow\<close>, \<open>transpose\<close> and \<open>insert_axis\<close>
  give views of the same buffer; \<open>concatenate\<close> gives a new array.
\<close>

definition at_empty :: "'a heap \<Rightarrow> int list \<Rightarrow> int \<Rightarrow> 'a heap \<times> tensor" where
  "at_empty mem shape es =
     (mem @ [Elems (replicate (nat (prod_list shape)) None)],
      \<lparr>buf = length mem, storage_offset = 0, sizes = shape,
       strides = stride_contiguous_v shape, itemsize = es\<rparr>)"

definition at_empty_long :: "'a heap \<Rightarrow> int list \<Rightarrow> 'a heap \<times> tensor" where
  "at_empty_long mem shape =
     (mem @ [Longs (replicate (nat (prod_list shape)) None)],
      \<lparr>buf = length mem, storage_offset = 0, sizes = shape,
       strides = stride_contiguous_v shape, itemsize = 8\<rparr>)"

definition empty_like :: "'a heap \<Rightarrow> tensor \<Rightarrow> 'a heap \<times> tensor" where
  "empty_like mem t = at_empty mem (sizes t) (itemsize t)"

definition as_strided :: "tensor \<Rightarrow> int list \<Rightarrow> int list \<Rightarrow> tensor" where
  "as_strided t shape st = t\<lparr>sizes := shape, strides := st\<rparr>"

definition size_at :: "tensor \<Rightarrow> int \<Rightarrow> error + int" where
  "size_at t d = ebind (maybe_wrap_dim d (dim t)) (\<lambda>i. Inr (sizes t ! i))"

definition narrow :: "tensor \<Rightarrow> int \<Rightarrow> int \<Rightarrow> int \<Rightarrow> error + tensor" where
  "narrow t d start len =
     ebind (maybe_wrap_dim d (dim t)) (\<lambda>i.
       if 0 \<le> start \<and> 0 \<le> len \<and> start + len \<le> sizes t ! i then
         Inr (t\<lparr>storage_offset := storage_offset t + start * (strides t ! i),
                sizes := (sizes t)[i := len]\<rparr>)
       else Inl InvalidArgument)"

definition swap_at :: "nat \<Rightarrow> nat \<Rightarrow> 'x list \<Rightarrow> 'x list" where
  "swap_at i j xs = xs[i := xs ! j, j := xs ! i]"

definition transpose_inplace :: "tensor \<Rightarrow> int \<Rightarrow> int \<Rightarrow> error + tensor" where
  "transpose_inplace t d0 d1 =
     ebind (maybe_wrap_dim d0 (dim t)) (\<lambda>i.
     ebind (maybe_wrap_dim d1 (dim t)) (\<lambda>j.
       Inr (t\<lparr>sizes := swap_at i j (sizes t), strides := swap_at i j (strides t)\<rparr>)))"

text \<open>
  \<open>concatenate(views, axis)\<close>: the views agree on every other axis; the result is a new
  contiguous array whose element at a coordinate comes from the view that the coordinate
  falls into along the axis.
\<close>

fun cat_get :: "'a heap \<Rightarrow> tensor list \<Rightarrow> nat \<Rightarrow> int list \<Rightarrow> error + 'a" where
  "cat_get mem [] i c = Inl OutOfBounds"
| "cat_get mem (t # ts) i c =
     (if c ! i < sizes t ! i then tget mem t c
      else cat_get mem ts i (c[i := c ! i - sizes t ! i]))"

definition cat :: "'a heap \<Rightarrow> tensor list \<Rightarrow> int \<Rightarrow> error + 'a heap \<times> tensor" where
  "cat mem ts d =
     (case ts of
        [] \<Rightarrow> Inl InvalidArgument
      | t # _ \<Rightarrow>
          ebind (maybe_wrap_dim d (dim t)) (\<lambda>i.
            if list_all (\<lambda>u. length (sizes u) = length (sizes t) \<and>
                              (sizes u)[i := 0] = (sizes t)[i := 0]) ts
            then
              (let shape = (sizes t)[i := sum_list (map (\<lambda>u. sizes u ! i) ts)]
               in ebind (mapM (cat_get mem ts i) (coords shape)) (\<lambda>vs.
                    Inr (mem @ [Elems (map Some vs)],
                         \<lparr>buf = length mem, storage_offset = 0, sizes = shape,
                          strides = stride_contiguous_v shape, itemsize = itemsize t\<rparr>)))
            else Inl InvalidArgument))"

datatype MemoryFormat = Preserve | Contiguous

text \<open>
  \<open>clone\<close>: with \<open>Contiguous\<close>, a deep copy in canonical (dense row-major) layout; with
  \<open>Preserve\<close>, a structural copy: the same view over a new buffer with the same cells.
\<close>

definition clone :: "'a heap \<Rightarrow> tensor \<Rightarrow> MemoryFormat \<Rightarrow> error + 'a heap \<times> tensor" where
  "clone mem t fmt =
     (case fmt of
        Contiguous \<Rightarrow>
          ebind (mapM (tget mem t) (coords (sizes t))) (\<lambda>vs.
            Inr (mem @ [Elems (map Some vs)],
                 \<lparr>buf = length mem, storage_offset = 0, sizes = sizes t,
                  strides = stride_contiguous_v (sizes t), itemsize = itemsize t\<rparr>))
      | Preserve \<Rightarrow>
          (if buf t < length mem then Inr (mem @ [mem ! buf t], t\<lparr>buf := length mem\<rparr>)
           else Inl OutOfBounds))"

text \<open>
  \<open>insert_axis(position)\<close>: a size-1 axis at the position, which counts from the back when
  negative (\<open>d + rank + 1\<close>).
\<close>

definition unsqueeze :: "tensor \<Rightarrow> int \<Rightarrow> error + tensor" where
  "unsqueeze t d =
     ebind (maybe_wrap_dim d (dim t + 1)) (\<lambda>i.
       Inr (t\<lparr>sizes := take i (sizes t) @ [1] @ drop i (sizes t),
              strides := take i (strides t) @
                 [if i < length (sizes t) then sizes t ! i * (strides t ! i) else 1] @
                 drop i (strides t)\<rparr>))"

text \<open>Reshaping a rank-0 array (one element) to a shape of ones.\<close>

definition reshape_scalar :: "tensor \<Rightarrow> int list \<Rightarrow> tensor" where
  "reshape_scalar t shape = t\<lparr>sizes := shape, strides := stride_contiguous_v shape\<rparr>"

text \<open>
  The library's contiguity test: an array without elements is contiguous; otherwise every
  axis of size other than 1 has the contiguous stride.
\<close>

fun contiguous_from :: "int list \<Rightarrow> int list \<Rightarrow> int \<Rightarrow> bool" where
  "contiguous_from (n # ns) (s # ss) z =
     (if n \<noteq> 1 then s = z \<and> contiguous_from ns ss (z * n) else contiguous_from ns ss z)"
| "contiguous_from _ _ z = True"

definition is_contiguous :: "tensor \<Rightarrow> bool" where
  "is_contiguous t \<longleftrightarrow>
     length (strides t) = length (sizes t) \<and>
     (numel t = 0 \<or> contiguous_from (rev (sizes t)) (rev (strides t)) 1)"

section \<open>Coordinate-decomposition flip kernel\<close>

text \<open>
  The inner loop of \<^verbatim>\<open>flip_old_cpu_kernel\<close> over the axes \<open>d = 0, 1, ...\<close>, reading
  \<^verbatim>\<open>stride_contiguous_v[d]\<close>, \<^verbatim>\<open>flip_dims_b[d]\<close>, \<^verbatim>\<open>sizes_v[d]\<close> and \<^verbatim>\<open>strides_v[d]\<close> in
  step; the state is \<^verbatim>\<open>cur_indices\<close> and \<^verbatim>\<open>dst_offset\<close>.
\<close>

fun dst_offset_loop :: "int list \<Rightarrow> bool list \<Rightarrow> int list \<Rightarrow> int list \<Rightarrow> int \<Rightarrow> int \<Rightarrow> int" where
  "dst_offset_loop (sc # scs) (f # fs) (n # ns) (s # ss) cur_indices dst_offset =
     (let temp = cur_indices;
          q = cur_indices sdiv sc;
          rem = temp - q * sc
      in dst_offset_loop scs fs ns ss rem
           (dst_offset + (if f then (n - 1 - q) * s else q * s)))"
| "dst_offset_loop _ _ _ _ cur_indices dst_offset = dst_offset"

definition flip_old_cpu_kernel ::
  "int list \<Rightarrow> bool list \<Rightarrow> tensor \<Rightarrow> tensor \<Rightarrow> 'a heap \<Rightarrow> error + 'a heap" where
  "flip_old_cpu_kernel stride_contiguous flip_dims_b in_tensor out_tensor mem =
     foldM (\<lambda>i m.
        ebind (load m (buf in_tensor)
                 (storage_offset in_tensor +
                  dst_offset_loop stride_contiguous flip_dims_b (sizes in_tensor)
                    (strides in_tensor) i 0))
          (\<lambda>v. store m (buf out_tensor) (storage_offset out_tensor + i) v))
       (map int [0..<nat (numel in_tensor)]) mem"

definition flip_old_cpu :: "'a heap \<Rightarrow> tensor \<Rightarrow> int list \<Rightarrow> error + 'a heap \<times> tensor" where
  "flip_old_cpu mem self dims =
     ebind (dim_list_to_bitset dims (dim self)) (\<lambda>flip_dims_b.
       (case empty_like mem self of (mem1, out_tensor) \<Rightarrow>
          ebind (flip_old_cpu_kernel (stride_contiguous_v (sizes self)) flip_dims_b
                   self out_tensor mem1)
            (\<lambda>mem2. Inr (mem2, out_tensor))))"

section \<open>Offset tables\<close>

definition build_index :: "'a heap \<Rightarrow> nat \<Rightarrow> nat \<Rightarrow> int \<Rightarrow> 'a heap \<times> tensor" where
  "build_index mem num_dims flip_dim dim_size =
     at_empty_long mem ((replicate num_dims 1)[flip_dim := dim_size])"

text \<open>One turn of the loop of \<^verbatim>\<open>build_indices_loop\<close> over the flipped axes.\<close>

definition build_indices_step ::
  "tensor \<Rightarrow> nat \<Rightarrow> 'a heap \<times> tensor list \<Rightarrow> error + 'a heap \<times> tensor list" where
  "build_indices_step input d acc =
     (case acc of (m, indices) \<Rightarrow>
        (let dim_size = sizes input ! d in
         case build_index m (length (sizes input)) d dim_size of (m1, index) \<Rightarrow>
           (let stride = strides input ! d in
            ebind (foldM (\<lambda>i m'. store_long m' (buf index) (storage_offset index + i)
                                    ((dim_size - i - 1) * stride * itemsize input))
                     (map int [0..<nat dim_size]) m1)
              (\<lambda>m2. Inr (m2, indices @ [index])))))"

definition build_indices_loop ::
  "'a heap \<Rightarrow> tensor \<Rightarrow> nat list \<Rightarrow> error + 'a heap \<times> tensor list" where
  "build_indices_loop mem input flip_dims =
     foldM (build_indices_step input) flip_dims (mem, [])"

section \<open>The element-wise iterator\<close>

text \<open>
  Modelled from the spec: the iteration engine (\<^verbatim>\<open>TensorIterator\<close>) is not among the
  sources. Section 6 of the specification: it is built from an output and input
  descriptors, allocates the output, broadcasts size-1 axes of an operand against the
  output shape (byte stride 0), and calls the per-chunk function with raw pointers, byte
  strides and a chunk length, covering every position once. Here a chunk is one run along
  the last axis, and the runs come in row-major order; an array without elements is not
  visited, and a rank-0 array is one chunk of length 1.
\<close>

record tensor_iter =
  it_shape :: "int list"
  it_data :: "ptr list"
  it_strides :: "int list list"
  it_output :: tensor

definition operand_strides :: "tensor \<Rightarrow> int list" where
  "operand_strides t = map2 (\<lambda>n s. if n = 1 then 0 else s * itemsize t) (sizes t) (strides t)"

definition operand_ptr :: "tensor \<Rightarrow> ptr" where
  "operand_ptr t = (buf t, storage_offset t * itemsize t)"

definition make_index_iterator ::
  "'a heap \<Rightarrow> tensor \<Rightarrow> tensor list \<Rightarrow> 'a heap \<times> tensor_iter" where
  "make_index_iterator mem input indices =
     (case empty_like mem input of (mem1, out) \<Rightarrow>
        (mem1,
         \<lparr>it_shape = sizes input,
          it_data = map operand_ptr (out # input # indices),
          it_strides = map operand_strides (out # input # indices),
          it_output = out\<rparr>))"

definition hd0 :: "int list \<Rightarrow> int" where
  "hd0 xs = (case xs of [] \<Rightarrow> 0 | x # _ \<Rightarrow> x)"

definition advance :: "ptr list \<Rightarrow> int list \<Rightarrow> int \<Rightarrow> ptr list" where
  "advance data st i = map2 (\<lambda>p s. ptr_add p (i * s)) data st"

fun for_each_rec ::
  "(ptr list \<Rightarrow> int list \<Rightarrow> int \<Rightarrow> 'a heap \<Rightarrow> error + 'a heap) \<Rightarrow>
   int list \<Rightarrow> int list list \<Rightarrow> ptr list \<Rightarrow> 'a heap \<Rightarrow> error + 'a heap" where
  "for_each_rec loop [] sts data mem = loop data (map (\<lambda>_. 0) sts) 1 mem"
| "for_each_rec loop [n] sts data mem = loop data (map hd0 sts) n mem"
| "for_each_rec loop (n # m # ms) sts data mem =
     foldM (\<lambda>i. for_each_rec loop (m # ms) (map tl sts) (advance data (map hd0 sts) i))
       (map int [0..<nat n]) mem"

definition for_each ::
  "(ptr list \<Rightarrow> int list \<Rightarrow> int \<Rightarrow> 'a heap \<Rightarrow> error + 'a heap) \<Rightarrow>
   tensor_iter \<Rightarrow> 'a heap \<Rightarrow> error + 'a heap" where
  "for_each loop iter mem =
     (if prod_list (it_shape iter) = 0 then Inr mem
      else for_each_rec loop (it_shape iter) (it_strides iter) (it_data iter) mem)"

section \<open>Restride-and-gather flip kernel\<close>

record Indexer =
  num_indexers :: int
  indexers :: "ptr list"
  indexer_strides :: "int list"

text \<open>
  \<^verbatim>\<open>indexers\<close> and \<^verbatim>\<open>indexer_strides\<close> point at slot 2 of the iterator's operand arrays:
  the slots that exist are those of the operands after the output and the source. Reading
  a slot past the end of the arrays is \<open>OutOfBounds\<close>.
\<close>

definition slot :: "'x list \<Rightarrow> nat \<Rightarrow> error + 'x" where
  "slot xs j = (if j < length xs then Inr (xs ! j) else Inl OutOfBounds)"

definition read_indexer :: "Indexer \<Rightarrow> nat \<Rightarrow> int \<Rightarrow> 'a heap \<Rightarrow> error + int" where
  "read_indexer ix j idx mem =
     ebind (slot (indexers ix) j) (\<lambda>p.
     ebind (slot (indexer_strides ix) j) (\<lambda>s.
       load_long_at mem (ptr_add p (idx * s))))"

definition Indexer_get :: "Indexer \<Rightarrow> int \<Rightarrow> 'a heap \<Rightarrow> error + int" where
  "Indexer_get ix idx mem =
     ebind (read_indexer ix 0 idx mem) (\<lambda>offset.
       foldM (\<lambda>j off. ebind (read_indexer ix j idx mem) (\<lambda>x. Inr (off + x)))
         [1..<nat (num_indexers ix)] offset)"

definition flip_cpu_kernel_loop ::
  "int \<Rightarrow> int \<Rightarrow> ptr list \<Rightarrow> int list \<Rightarrow> int \<Rightarrow> 'a heap \<Rightarrow> error + 'a heap" where
  "flip_cpu_kernel_loop es ntensor data strides_v n mem =
     (case data of
        dst # src # rest \<Rightarrow>
          (case strides_v of
             s0 # s1 # srest \<Rightarrow>
               (let indexer = \<lparr>num_indexers = ntensor - 2, indexers = rest,
                               indexer_strides = srest\<rparr>
                in foldM (\<lambda>i m.
                     ebind (Indexer_get indexer i m) (\<lambda>offset.
                     ebind (load_at es m (ptr_add src (s1 * i + offset))) (\<lambda>v.
                       store_at es m (ptr_add dst (s0 * i)) v)))
                   (map int [0..<nat n]) mem)
           | _ \<Rightarrow> Inl OutOfBounds)
      | _ \<Rightarrow> Inl OutOfBounds)"

definition flip_cpu_kernel :: "int \<Rightarrow> tensor_iter \<Rightarrow> 'a heap \<Rightarrow> error + 'a heap" where
  "flip_cpu_kernel es iter mem =
     for_each (flip_cpu_kernel_loop es (int (length (it_data iter)))) iter mem"

text \<open>
  Modelled from the spec: the registration of \<^verbatim>\<open>flip_stub\<close> is not among the sources.
  Section 9 of the specification: the stub routes to the kernel of the execution backend;
  the backend in scope is \<^verbatim>\<open>flip_cpu_kernel\<close>, instantiated at the element type of the
  input as \<^verbatim>\<open>flip_cpu_internal\<close> does.
\<close>

definition flip_stub :: "tensor_iter \<Rightarrow> tensor \<Rightarrow> 'a heap \<Rightarrow> error + 'a heap" where
  "flip_stub iter input mem = flip_cpu_kernel (itemsize input) iter mem"

definition flip_dims_of :: "bool list \<Rightarrow> nat \<Rightarrow> nat list" where
  "flip_dims_of flip_dims_b total_dims = filter (\<lambda>i. flip_dims_b ! i) [0..<total_dims]"

definition flip_cpu :: "'a heap \<Rightarrow> tensor \<Rightarrow> int list \<Rightarrow> error + 'a heap \<times> tensor" where
  "flip_cpu mem self dims =
     ebind (dim_list_to_bitset dims (dim self)) (\<lambda>flip_dims_b.
       (let flip_dims = flip_dims_of flip_dims_b (length (sizes self));
            shape = sizes self;
            strides' = fold (\<lambda>d st. st[d := 0]) flip_dims (strides self);
            restrided_input = as_strided self shape strides'
        in ebind (build_indices_loop mem self flip_dims) (\<lambda>(mem1, indices).
             (case make_index_iterator mem1 restrided_input indices of (mem2, iter) \<Rightarrow>
                ebind (flip_stub iter self mem2) (\<lambda>mem3. Inr (mem3, it_output iter))))))"

definition flip_cpu_internal ::
  "'a heap \<Rightarrow> tensor \<Rightarrow> int list \<Rightarrow> error + 'a heap \<times> tensor" where
  "flip_cpu_internal mem self dims =
     ebind (dim_list_to_bitset dims (dim self)) (\<lambda>flip_dims_b.
       (let flip_dims = flip_dims_of flip_dims_b (length (sizes self));
            shape = sizes self;
            strides' = fold (\<lambda>d st. st[d := 0]) flip_dims (strides self);
            restrided_input = as_strided self shape strides'
        in ebind (build_indices_loop mem self flip_dims) (\<lambda>(mem1, indices).
             (case make_index_iterator mem1 restrided_input indices of (mem2, iter) \<Rightarrow>
                ebind (flip_cpu_kernel (itemsize self) iter mem2)
                  (\<lambda>mem3. Inr (mem3, it_output iter))))))"

section \<open>Roll, rot90 and rank promotion\<close>

text \<open>
  \<^verbatim>\<open>roll_common\<close> (the multi-axis path) is not among the sources and the specification
  leaves it to a collaborator: it is a parameter of \<open>roll_cpu\<close>.
\<close>

definition roll_cpu ::
  "('a heap \<Rightarrow> tensor \<Rightarrow> int list \<Rightarrow> int list \<Rightarrow> error + 'a heap \<times> tensor) \<Rightarrow>
   'a heap \<Rightarrow> tensor \<Rightarrow> int list \<Rightarrow> int list \<Rightarrow> error + 'a heap \<times> tensor" where
  "roll_cpu roll_common mem self shifts dims =
     (case (shifts, dims) of
        ([shift], [d]) \<Rightarrow>
          (if numel self = 0 then clone mem self Preserve
           else
             ebind (size_at self d) (\<lambda>size_d.
               (let start = wrap64 (size_d - shift) smod size_d;
                    start = (if start < 0 then start + size_d else start)
                in ebind (narrow self d start (size_d - start)) (\<lambda>t0.
                   ebind (narrow self d 0 start) (\<lambda>t1.
                     cat mem [t0, t1] d)))))
      | _ \<Rightarrow> roll_common mem self shifts dims)"

definition flip :: "'a heap \<Rightarrow> tensor \<Rightarrow> int list \<Rightarrow> error + 'a heap \<times> tensor" where
  "flip = flip_cpu"

definition rot90_check :: "int \<Rightarrow> int list \<Rightarrow> error + int \<times> int" where
  "rot90_check total_dims dims =
     (case dims of
        [d0, d1] \<Rightarrow>
          (if total_dims < 2 then Inl InvalidArgument
           else if d0 = d1 then Inl InvalidArgument
           else if wrap64 \<bar>wrap64 (d0 - d1)\<bar> = total_dims then Inl InvalidArgument
           else if d0 < total_dims \<and> - total_dims \<le> d0 then
             (if d1 < total_dims \<and> - total_dims \<le> d1 then Inr (d0, d1)
              else Inl InvalidArgument)
           else Inl InvalidArgument)
      | _ \<Rightarrow> Inl InvalidArgument)"

definition rot90 :: "'a heap \<Rightarrow> tensor \<Rightarrow> int \<Rightarrow> int list \<Rightarrow> error + 'a heap \<times> tensor" where
  "rot90 mem self k dims =
     ebind (rot90_check (dim self) dims) (\<lambda>(d0, d1).
       (let k' = (4 + (k smod 4)) smod 4 in
        if k' = 1 then
          ebind (flip mem self [d1]) (\<lambda>(m, t). ebind (transpose_inplace t d0 d1) (\<lambda>r. Inr (m, r)))
        else if k' = 2 then flip mem self dims
        else if k' = 3 then
          ebind (flip mem self [d0]) (\<lambda>(m, t). ebind (transpose_inplace t d0 d1) (\<lambda>r. Inr (m, r)))
        else clone mem self Contiguous))"

definition atleast_3d :: "tensor \<Rightarrow> error + tensor" where
  "atleast_3d self =
     (if dim self = 0 then Inr (reshape_scalar self [1, 1, 1])
      else if dim self = 1 then ebind (unsqueeze self 0) (\<lambda>t. unsqueeze t (- 1))
      else if dim self = 2 then unsqueeze self (- 1)
      else Inr self)"

section \<open>Notions used in the statements and proofs\<close>

text \<open>
  The pointers of all operands at a coordinate, the work of the kernel on one element,
  the mirror image of a coordinate on the flipped axes, and the contents of the store
  after a flip: one offset table per flipped axis, then the output buffer.
\<close>

definition ptrs_at :: "ptr list \<Rightarrow> int list list \<Rightarrow> int list \<Rightarrow> ptr list" where
  "ptrs_at data sts c = map2 (\<lambda>p st. ptr_add p (dot c st)) data sts"

definition gather :: "int \<Rightarrow> int \<Rightarrow> ptr list \<Rightarrow> 'a heap \<Rightarrow> error + 'a heap" where
  "gather es nt ptrs mem = flip_cpu_kernel_loop es nt ptrs (map (\<lambda>_. 0) ptrs) 1 mem"

definition flipc :: "bool list \<Rightarrow> int list \<Rightarrow> int list \<Rightarrow> int list" where
  "flipc b ns c = map2 (\<lambda>f (n, x). if f then n - 1 - x else x) b (zip ns c)"

definition idx_table :: "tensor \<Rightarrow> nat \<Rightarrow> 'a buffer" where
  "idx_table t d =
     Longs (map (\<lambda>i. Some ((sizes t ! d - int i - 1) * (strides t ! d) * itemsize t))
              [0..<nat (sizes t ! d)])"

definition idx_tensor :: "tensor \<Rightarrow> nat \<Rightarrow> nat \<Rightarrow> tensor" where
  "idx_tensor t bf d =
     \<lparr>buf = bf, storage_offset = 0,
      sizes = (replicate (length (sizes t)) 1)[d := sizes t ! d],
      strides = stride_contiguous_v ((replicate (length (sizes t)) 1)[d := sizes t ! d]),
      itemsize = 8\<rparr>"

fun idx_tensors :: "tensor \<Rightarrow> nat \<Rightarrow> nat list \<Rightarrow> tensor list" where
  "idx_tensors t bf [] = []"
| "idx_tensors t bf (d # ds) = idx_tensor t bf d # idx_tensors t (Suc bf) ds"

definition flip_out :: "'a heap \<Rightarrow> tensor \<Rightarrow> nat list \<Rightarrow> tensor" where
  "flip_out mem t fs =
     \<lparr>buf = length mem + length fs, storage_offset = 0, sizes = sizes t,
      strides = stride_contiguous_v (sizes t), itemsize = itemsize t\<rparr>"

definition flip_cells :: "'a heap \<Rightarrow> tensor \<Rightarrow> bool list \<Rightarrow> 'a option list" where
  "flip_cells mem t b =
     map (\<lambda>c. Some (projr (tget mem t (flipc b (sizes t) c)))) (coords (sizes t))"

definition wrapped :: "int \<Rightarrow> int \<Rightarrow> nat" where
  "wrapped d r = nat (if d < 0 then d + r else d)"

definition bits1 :: "nat \<Rightarrow> bool list" where
  "bits1 j = (replicate 64 False)[j := True]"

definition bits2 :: "nat \<Rightarrow> nat \<Rightarrow> bool list" where
  "bits2 i j = (replicate 64 False)[i := True, j := True]"

definition transposed :: "tensor \<Rightarrow> nat \<Rightarrow> nat \<Rightarrow> tensor" where
  "transposed t i j = t\<lparr>sizes := swap_at i j (sizes t), strides := swap_at i j (strides t)\<rparr>"

definition fresh_contiguous :: "'a heap \<Rightarrow> tensor \<Rightarrow> 'a heap \<Rightarrow> tensor \<Rightarrow> bool" where
  "fresh_contiguous mem t m' out \<longleftrightarrow>
     sizes out = sizes t \<and> is_contiguous out \<and> length mem \<le> buf out \<and> buf out \<noteq> buf t \<and>
     buf out < length m' \<and> take (length mem) m' = mem"

definition result_fresh :: "'a heap \<Rightarrow> tensor \<Rightarrow> error + 'a heap \<times> tensor \<Rightarrow> bool" where
  "result_fresh mem t r =
     (case r of Inl e \<Rightarrow> True | Inr (m', out) \<Rightarrow> fresh_contiguous mem t m' out)"

section \<open>Statements of the specification and test data\<close>

text \<open>The shape and the elements of a result, in row-major order.\<close>

definition result_elements ::
  "error + 'a heap \<times> tensor \<Rightarrow> error + int list \<times> (error + 'a) list" where
  "result_elements r = (case r of Inl e \<Rightarrow> Inl e | Inr (m, t) \<Rightarrow> Inr (sizes t, elements m t))"

definition result_sizes :: "error + 'a heap \<times> tensor \<Rightarrow> error + int list" where
  "result_sizes r = (case r of Inl e \<Rightarrow> Inl e | Inr (m, t) \<Rightarrow> Inr (sizes t))"

text \<open>
  The conditions under which the specification has \<open>rot90\<close> raise \<open>InvalidArgument\<close>
  (section 4.8 and the validation property of section 8): not exactly two rotation axes,
  rank below 2, equal axes, axes whose distance is the rank, an axis out of range.
\<close>

definition rot90_invalid :: "int \<Rightarrow> int list \<Rightarrow> bool" where
  "rot90_invalid rank dims =
     (case dims of
        [d0, d1] \<Rightarrow>
          rank < 2 \<or> d0 = d1 \<or> \<bar>d0 - d1\<bar> = rank \<or>
          d0 < - rank \<or> rank \<le> d0 \<or> d1 < - rank \<or> rank \<le> d1
      | _ \<Rightarrow> True)"

text \<open>The array \<open>[[1, 2, 3], [4, 5, 6]]\<close> of 4-byte integers, stored contiguously.\<close>

definition X23 :: tensor where
  "X23 = \<lparr>buf = 0, storage_offset = 0, sizes = [2, 3], strides = [3, 1], itemsize = 4\<rparr>"

definition M23 :: "int heap" where
  "M23 = [Elems [Some 1, Some 2, Some 3, Some 4, Some 5, Some 6]]"

text \<open>The vector \<open>[1, 2, 3]\<close>, an array of shape \<open>[0, 3]\<close>, and an array of rank 65.\<close>

definition V3 :: tensor where
  "V3 = \<lparr>buf = 0, storage_offset = 0, sizes = [3], strides = [1], itemsize = 4\<rparr>"

definition MV3 :: "int heap" where
  "MV3 = [Elems [Some 1, Some 2, Some 3]]"

definition E03 :: tensor where
  "E03 = \<lparr>buf = 0, storage_offset = 0, sizes = [0, 3], strides = [3, 1], itemsize = 4\<rparr>"

definition ME :: "int heap" where
  "ME = [Elems []]"

definition T65 :: tensor where
  "T65 = \<lparr>buf = 0, storage_offset = 0, sizes = replicate 65 1, strides = replicate 65 1,
           itemsize = 4\<rparr>"

definition M1 :: "int heap" where
  "M1 = [Elems [Some 7]]"

text \<open>A stand-in for the multi-axis collaborator of \<open>roll_cpu\<close>, which the examples do not reach.\<close>

definition no_roll_common ::
  "int heap \<Rightarrow> tensor \<Rightarrow> int list \<Rightarrow> int list \<Rightarrow> error + int heap \<times> tensor" where
  "no_roll_common mem t shifts dims = Inl InvalidArgument"

section \<open>The error monad, coordinates and contiguous strides\<close>

lemma ebind_Inr [simp]: "ebind (Inr x) f = f x"
  by (simp add: ebind_def)

lemma ebind_Inl [simp]: "ebind (Inl e) f = Inl e"
  by (simp add: ebind_def)

lemma ebind_eq_Inr: "ebind m f = Inr y \<longleftrightarrow> (\<exists>x. m = Inr x \<and> f x = Inr y)"
  by (cases m) auto

lemma foldM_append: "foldM f (xs @ ys) s = ebind (foldM f xs s) (foldM f ys)"
  by (induction xs arbitrary: s) (auto split: sum.splits)

lemma foldM_map: "foldM f (map h xs) s = foldM (\<lambda>x. f (h x)) xs s"
  by (induction xs arbitrary: s) (auto split: sum.splits)

lemma foldM_concat_map: "foldM f (concat (map h xs)) s = foldM (\<lambda>x. foldM f (h x)) xs s"
  by (induction xs arbitrary: s) (auto simp: foldM_append split: sum.splits)

lemma foldM_cong_inv:
  assumes "I s"
    and "\<And>x s. x \<in> set xs \<Longrightarrow> I s \<Longrightarrow> f x s = g x s"
    and "\<And>x s s'. x \<in> set xs \<Longrightarrow> I s \<Longrightarrow> g x s = Inr s' \<Longrightarrow> I s'"
  shows "foldM f xs s = foldM g xs s"
  using assms
proof (induction xs arbitrary: s)
  case Nil
  then show ?case by simp
next
  case (Cons x xs)
  have eq: "f x s = g x s" using Cons.prems by simp
  show ?case
  proof (cases "g x s")
    case (Inl e)
    then show ?thesis using eq by simp
  next
    case (Inr s')
    have "I s'" using Cons.prems(3)[of x s s'] Cons.prems(1) Inr by simp
    then have "foldM f xs s' = foldM g xs s'"
    proof (rule Cons.IH)
      fix y t assume "y \<in> set xs" "I t"
      then show "f y t = g y t" using Cons.prems(2)[of y t] by simp
    next
      fix y t t' assume "y \<in> set xs" "I t" "g y t = Inr t'"
      then show "I t'" using Cons.prems(3)[of y t t'] by simp
    qed
    then show ?thesis using eq Inr by simp
  qed
qed

lemma foldM_cong:
  "(\<And>x s. x \<in> set xs \<Longrightarrow> f x s = g x s) \<Longrightarrow> foldM f xs s = foldM g xs s"
  using foldM_cong_inv[where I = "\<lambda>_. True"] by metis

lemma mapM_ok:
  "(\<And>x. x \<in> set xs \<Longrightarrow> is_ok (f x)) \<Longrightarrow> \<exists>ys. mapM f xs = Inr ys \<and> map Inr ys = map f xs"
proof (induction xs)
  case Nil
  then show ?case by simp
next
  case (Cons x xs)
  then obtain ys where ys: "mapM f xs = Inr ys" "map Inr ys = map f xs" by auto
  from Cons.prems[of x] obtain y where "f x = Inr y"
    by (cases "f x") (auto simp: is_ok_def)
  then show ?case using ys by simp
qed

lemma coords_iff: "c \<in> set (coords ns) \<longleftrightarrow> list_all2 (\<lambda>x n. 0 \<le> x \<and> x < n) c ns"
proof (induction ns arbitrary: c)
  case Nil
  then show ?case by simp
next
  case (Cons n ns)
  show ?case
  proof (cases c)
    case Nil
    then show ?thesis by auto
  next
    case (Cons x xs)
    have "x \<in> int ` {0..<nat n} \<longleftrightarrow> 0 \<le> x \<and> x < n"
      by (auto simp: image_iff intro: bexI[of _ "nat x"])
    then show ?thesis using Cons Cons.IH[of xs] by auto
  qed
qed

lemma coords_length: "c \<in> set (coords ns) \<Longrightarrow> length c = length ns"
  by (simp add: coords_iff list_all2_lengthD)

lemma coords_nth:
  "c \<in> set (coords ns) \<Longrightarrow> d < length ns \<Longrightarrow> 0 \<le> c ! d \<and> c ! d < ns ! d"
  by (simp add: coords_iff list_all2_conv_all_nth)

lemma coords_intro:
  "length c = length ns \<Longrightarrow> (\<And>d. d < length ns \<Longrightarrow> 0 \<le> c ! d \<and> c ! d < ns ! d) \<Longrightarrow>
   c \<in> set (coords ns)"
  by (simp add: coords_iff list_all2_conv_all_nth)

lemma coords_empty: "prod_list ns = 0 \<Longrightarrow> coords ns = []"
  by (induction ns) auto

lemma sc_length [simp]: "length (stride_contiguous_v ns) = length ns"
  by (induction ns rule: stride_contiguous_v.induct) (auto split: list.splits)

lemma sc_Cons:
  "list_all (\<lambda>n. 0 < n) ns \<Longrightarrow> stride_contiguous_v (n # ns) = prod_list ns # stride_contiguous_v ns"
proof (induction ns arbitrary: n)
  case Nil
  then show ?case by simp
next
  case (Cons m ms)
  then have "stride_contiguous_v (m # ms) = prod_list ms # stride_contiguous_v ms" by simp
  moreover have "max m 1 = m" using Cons.prems by simp
  ultimately show ?case by simp
qed

lemma range_blocks:
  "concat (map (\<lambda>i. map (\<lambda>j. i * p + j) [0..<p]) [0..<n]) = [0..<n * p]"
proof (induction n)
  case 0
  then show ?case by simp
next
  case (Suc n)
  have "map (\<lambda>j. n * p + j) [0..<p] = [n * p..<n * p + p]"
    using map_add_upt[of "n * p" p] by (simp add: add.commute)
  moreover have "[0..<n * p + p] = [0..<n * p] @ [n * p..<n * p + p]"
    by (rule upt_add_eq_append) simp
  ultimately show ?case using Suc by (simp add: add.commute)
qed

lemma linear_coords:
  "list_all (\<lambda>n. 0 < n) ns \<Longrightarrow>
   map (\<lambda>c. dot c (stride_contiguous_v ns)) (coords ns) = map int [0..<nat (prod_list ns)]"
proof (induction ns)
  case Nil
  then show ?case by simp
next
  case (Cons n ns)
  define p where "p = nat (prod_list ns)"
  have pos: "0 < prod_list ns" using Cons.prems by (induction ns) auto
  have P: "prod_list ns = int p" using pos by (simp add: p_def)
  have IH: "map (\<lambda>c. dot c (stride_contiguous_v ns)) (coords ns) = map int [0..<p]"
    using Cons by (simp add: p_def)
  have n: "0 < n" using Cons.prems by simp
  have "map (\<lambda>c. dot c (stride_contiguous_v (n # ns))) (coords (n # ns)) =
        concat (map (\<lambda>i. map (\<lambda>c. int i * int p + dot c (stride_contiguous_v ns)) (coords ns)) [0..<nat n])"
    using Cons.prems by (simp add: sc_Cons map_concat comp_def P)
  also have "\<dots> = concat (map (\<lambda>i. map (\<lambda>j. int i * int p + j) (map int [0..<p])) [0..<nat n])"
    using IH[symmetric] by (simp add: comp_def)
  also have "\<dots> = map int (concat (map (\<lambda>i. map (\<lambda>j. i * p + j) [0..<p]) [0..<nat n]))"
    by (simp add: map_concat comp_def)
  also have "\<dots> = map int [0..<nat n * p]" by (simp add: range_blocks)
  also have "nat n * p = nat (prod_list (n # ns))"
    using n pos by (simp add: p_def nat_mult_distrib)
  finally show ?case .
qed

lemma case_sum_id [simp]: "(case r of Inl e \<Rightarrow> Inl e | Inr y \<Rightarrow> Inr y) = r"
  by (cases r) auto

lemma ptr_add_0 [simp]: "ptr_add p 0 = p"
  by (simp add: ptr_add_def)

lemma ptr_add_add [simp]: "ptr_add (ptr_add p a) b = ptr_add p (a + b)"
  by (simp add: ptr_add_def)

lemma slot_advance:
  "length st = length ps \<Longrightarrow>
   ebind (slot (advance ps st i) j) (\<lambda>p. ebind (slot (map (\<lambda>_. 0) (advance ps st i)) j) (\<lambda>s. f (ptr_add p (0 * s)))) =
   ebind (slot ps j) (\<lambda>p. ebind (slot st j) (\<lambda>s. f (ptr_add p (i * s))))"
  by (auto simp: slot_def advance_def)

lemma read_indexer_advance:
  "length st = length ps \<Longrightarrow>
   read_indexer \<lparr>num_indexers = k, indexers = advance ps st i,
                 indexer_strides = map (\<lambda>_. 0) (advance ps st i)\<rparr> j 0 mem =
   read_indexer \<lparr>num_indexers = k, indexers = ps, indexer_strides = st\<rparr> j i mem"
  using slot_advance[of st ps i j "load_long_at mem"] by (simp add: read_indexer_def)

lemma Indexer_get_advance:
  "length st = length ps \<Longrightarrow>
   Indexer_get \<lparr>num_indexers = k, indexers = advance ps st i,
                indexer_strides = map (\<lambda>_. 0) (advance ps st i)\<rparr> 0 mem =
   Indexer_get \<lparr>num_indexers = k, indexers = ps, indexer_strides = st\<rparr> i mem"
  by (simp add: Indexer_get_def read_indexer_advance)

lemma loop_unroll:
  assumes "length st = length data" "2 \<le> length data"
  shows "flip_cpu_kernel_loop es nt data st n mem =
         foldM (\<lambda>i. gather es nt (advance data st i)) (map int [0..<nat n]) mem"
proof -
  obtain dst src rest where data: "data = dst # src # rest"
    using assms(2) by (cases data; cases "tl data") auto
  obtain s0 s1 srest where st: "st = s0 # s1 # srest"
    using assms data by (cases st; cases "tl st") auto
  have len: "length srest = length rest" using assms data st by simp
  have adv: "advance data st i = ptr_add dst (i * s0) # ptr_add src (i * s1) # advance rest srest i" for i
    by (simp add: advance_def data st)
  let ?ix = "\<lparr>num_indexers = nt - 2, indexers = rest, indexer_strides = srest\<rparr>"
  have body: "gather es nt (advance data st i) m =
      ebind (Indexer_get ?ix i m) (\<lambda>offset.
        ebind (load_at es m (ptr_add src (s1 * i + offset))) (\<lambda>v.
          store_at es m (ptr_add dst (s0 * i)) v))" for i m
    unfolding gather_def flip_cpu_kernel_loop_def adv
    by (simp add: Indexer_get_advance[OF len] mult.commute split: sum.splits)
  have E: "(\<lambda>i. gather es nt (advance data st i)) =
      (\<lambda>i m. ebind (Indexer_get ?ix i m) (\<lambda>offset.
        ebind (load_at es m (ptr_add src (s1 * i + offset))) (\<lambda>v.
          store_at es m (ptr_add dst (s0 * i)) v)))"
    by (intro ext) (rule body)
  show ?thesis
    unfolding E by (simp add: flip_cpu_kernel_loop_def data st)
qed

lemma ptrs_at_Nil: "length sts = length data \<Longrightarrow> ptrs_at data sts [] = data"
  by (induction sts data rule: list_induct2) (simp_all add: ptrs_at_def)

lemma dot_Cons_hd: "st \<noteq> [] \<Longrightarrow> dot (i # c) st = i * hd0 st + dot c (tl st)"
  by (cases st) (simp_all add: hd0_def)

lemma advance_length [simp]: "length (advance data st i) = min (length data) (length st)"
  by (simp add: advance_def)

lemma ptrs_at_Cons:
  "length sts = length data \<Longrightarrow> \<forall>st\<in>set sts. st \<noteq> [] \<Longrightarrow>
   ptrs_at (advance data (map hd0 sts) i) (map tl sts) c = ptrs_at data sts (i # c)"
  by (induction sts data rule: list_induct2)
     (simp_all add: ptrs_at_def advance_def dot_Cons_hd)

lemma ptrs_at_single:
  "length sts = length data \<Longrightarrow> \<forall>st\<in>set sts. length st = 1 \<Longrightarrow>
   ptrs_at data sts [i] = advance data (map hd0 sts) i"
proof (induction sts data rule: list_induct2)
  case Nil
  then show ?case by (simp add: ptrs_at_def advance_def)
next
  case (Cons st sts p ps)
  then obtain x where "st = [x]" by (cases st) auto
  then show ?case using Cons by (simp add: ptrs_at_def advance_def hd0_def)
qed

lemma zeros_eq: "length sts = length data \<Longrightarrow> map (\<lambda>_. 0::int) sts = map (\<lambda>_. 0) data"
  by (simp add: map_replicate_const)

lemma foldM_coords_Cons:
  "foldM g (coords (n # ns)) mem =
   foldM (\<lambda>i. foldM (\<lambda>c. g (i # c)) (coords ns)) (map int [0..<nat n]) mem"
proof -
  have "foldM g (map ((#) i) (coords ns)) = foldM (\<lambda>c. g (i # c)) (coords ns)" for i
    by (intro ext) (simp add: foldM_map)
  then show ?thesis
    by (simp add: foldM_concat_map foldM_map)
qed

lemma for_each_rec_flat:
  assumes "length sts = length data" "2 \<le> length data" "\<forall>st\<in>set sts. length st = length shape"
  shows "for_each_rec (flip_cpu_kernel_loop es nt) shape sts data (mem :: 'a heap) =
         foldM (\<lambda>c. gather es nt (ptrs_at data sts c)) (coords shape) mem"
  using assms
proof (induction shape arbitrary: sts data mem rule: induct_list012)
  case 1
  then show ?case
    by (simp add: ptrs_at_Nil gather_def map_replicate_const split: sum.splits)
next
  case (2 n)
  have "for_each_rec (flip_cpu_kernel_loop es nt) [n] sts data mem =
        foldM (\<lambda>i. gather es nt (advance data (map hd0 sts) i)) (map int [0..<nat n]) mem"
    using 2 by (simp add: loop_unroll)
  also have "\<dots> = foldM (\<lambda>i. foldM (\<lambda>c. gather es nt (ptrs_at data sts (i # c))) (coords []))
                     (map int [0..<nat n]) mem"
  proof -
    have G: "(\<lambda>i. foldM (\<lambda>c. gather es nt (ptrs_at data sts (i # c))) (coords [])) =
          (\<lambda>i. gather es nt (advance data (map hd0 sts) i))"
      using 2 by (intro ext) (simp add: ptrs_at_single split: sum.splits)
    show ?thesis unfolding G ..
  qed
  finally show ?case
    by (simp only: foldM_coords_Cons)
next
  case (3 n m ms)
  let ?hs = "map hd0 sts"
  let ?L = "flip_cpu_kernel_loop es nt ::
     ptr list \<Rightarrow> int list \<Rightarrow> int \<Rightarrow> 'a heap \<Rightarrow> error + 'a heap"
  have ne: "\<forall>st\<in>set sts. st \<noteq> []" using 3(5) by auto
  have tl: "\<forall>st\<in>set (map tl sts). length st = length (m # ms)" using 3(5) by auto
  have E: "(\<lambda>i. for_each_rec ?L (m # ms) (map tl sts) (advance data ?hs i)) =
           (\<lambda>i. foldM (\<lambda>c. gather es nt (ptrs_at data sts (i # c))) (coords (m # ms)))"
  proof (intro ext)
    fix i and mm :: "'a heap"
    have l1: "length (map tl sts) = length (advance data ?hs i)" using 3(3) by simp
    have l2: "2 \<le> length (advance data ?hs i)" using 3(3,4) by simp
    have "for_each_rec ?L (m # ms) (map tl sts) (advance data ?hs i) mm =
          foldM (\<lambda>c. gather es nt (ptrs_at (advance data ?hs i) (map tl sts) c)) (coords (m # ms)) mm"
      by (rule "3.IH"(2)[OF l1 l2 tl])
    then show "for_each_rec ?L (m # ms) (map tl sts) (advance data ?hs i) mm =
          foldM (\<lambda>c. gather es nt (ptrs_at data sts (i # c))) (coords (m # ms)) mm"
      by (simp only: ptrs_at_Cons[OF 3(3) ne])
  qed
  have "for_each_rec ?L (n # m # ms) sts data mem =
        foldM (\<lambda>i. for_each_rec ?L (m # ms) (map tl sts) (advance data ?hs i))
          (map int [0..<nat n]) mem"
    by simp
  then show ?case
    by (simp only: E foldM_coords_Cons[of _ n "m # ms"])
qed

lemma dot_sum: "length c = length s \<Longrightarrow> dot c s = (\<Sum>d<length s. c ! d * s ! d)"
  by (induction c s rule: list_induct2)
     (simp_all add: sum.lessThan_Suc_shift del: sum.lessThan_Suc)

lemma dot_broadcast:
  "list_all2 (\<lambda>x n. 0 \<le> x \<and> x < n) c ns \<Longrightarrow> length s = length ns \<Longrightarrow>
   dot c (map2 (\<lambda>n s. if n = 1 then 0 else s * es) ns s) = es * dot c s"
proof (induction c ns arbitrary: s rule: list_all2_induct)
  case Nil
  then show ?case by simp
next
  case (Cons x c n ns)
  then obtain y ys where s: "s = y # ys" by (cases s) auto
  have "n = 1 \<Longrightarrow> x = 0" using Cons.hyps by simp
  then show ?case using Cons s by (auto simp: algebra_simps)
qed

lemma flipc_length [simp]:
  "length (flipc b ns c) = min (length b) (min (length ns) (length c))"
  by (simp add: flipc_def)

lemma flipc_nth:
  "d < length c \<Longrightarrow> length c = length ns \<Longrightarrow> length ns \<le> length b \<Longrightarrow>
   flipc b ns c ! d = (if b ! d then ns ! d - 1 - c ! d else c ! d)"
  by (simp add: flipc_def)

lemma flipc_coords:
  assumes "c \<in> set (coords ns)" "length ns \<le> length b"
  shows "flipc b ns c \<in> set (coords ns)"
proof (rule coords_intro)
  show "length (flipc b ns c) = length ns"
    using assms coords_length[OF assms(1)] by simp
next
  fix d assume d: "d < length ns"
  then show "0 \<le> flipc b ns c ! d \<and> flipc b ns c ! d < ns ! d"
    using coords_nth[OF assms(1) d] coords_length[OF assms(1)] assms(2)
    by (simp add: flipc_nth)
qed

lemma flipc_involution:
  assumes "c \<in> set (coords ns)" "length ns \<le> length b"
  shows "flipc b ns (flipc b ns c) = c"
proof (rule nth_equalityI)
  show "length (flipc b ns (flipc b ns c)) = length c"
    using assms coords_length[OF assms(1)] by simp
next
  fix d assume "d < length (flipc b ns (flipc b ns c))"
  then have d: "d < length c" using coords_length[OF assms(1)] assms(2) by simp
  have l: "length (flipc b ns c) = length ns" using coords_length[OF assms(1)] assms(2) by simp
  show "flipc b ns (flipc b ns c) ! d = c ! d"
    using d coords_length[OF assms(1)] assms(2) l by (simp add: flipc_nth)
qed

lemma restride_length [simp]: "length (fold (\<lambda>d st. st[d := 0]) fs st) = length st"
  by (induction fs arbitrary: st) simp_all

lemma restride_nth:
  "d < length st \<Longrightarrow>
   fold (\<lambda>d st. st[d := (0::int)]) fs st ! d = (if d \<in> set fs then 0 else st ! d)"
proof (induction fs arbitrary: st)
  case Nil
  then show ?case by simp
next
  case (Cons f fs)
  then show ?case by (cases "d = f") (simp_all add: nth_list_update)
qed

lemma restride_zero:
  "d < length st \<Longrightarrow> st ! d = (0::int) \<Longrightarrow> fold (\<lambda>d st. st[d := 0]) fs st ! d = 0"
proof (induction fs arbitrary: st)
  case Nil
  then show ?case by simp
next
  case (Cons f fs)
  have "st[f := 0] ! d = (0::int)" using Cons.prems
    by (cases "f < length st") (simp_all add: nth_list_update)
  then show ?case using Cons.IH[of "st[f := 0]"] Cons.prems by simp
qed

lemma flip_dims_set: "set (flip_dims_of b r) = {d. d < r \<and> b ! d}"
  by (auto simp: flip_dims_of_def)

lemma flip_dims_sum:
  "sum_list (map g (flip_dims_of b r)) = (\<Sum>d<r. if b ! d then g d else (0::int))"
proof -
  have "sum_list (map g (flip_dims_of b r)) =
        sum_list (map (\<lambda>d. if b ! d then g d else 0) [0..<r])"
    by (simp add: flip_dims_of_def sum_list_map_filter')
  also have "\<dots> = (\<Sum>d<r. if b ! d then g d else 0)"
    by (simp add: interv_sum_list_conv_sum_set_nat atLeast0LessThan)
  finally show ?thesis .
qed

lemma src_offset:
  assumes c: "c \<in> set (coords ns)" and st: "length st = length ns"
    and b: "length ns \<le> length b"
    and R: "sizes R = ns" "strides R = fold (\<lambda>d st. st[d := 0]) (flip_dims_of b (length ns)) st"
      "itemsize R = es"
  shows "dot c (operand_strides R) +
         sum_list (map (\<lambda>d. (ns ! d - c ! d - 1) * (st ! d) * es) (flip_dims_of b (length ns))) =
         es * dot (flipc b ns c) st"
proof -
  let ?r = "length ns"
  let ?rs = "fold (\<lambda>d st. st[d := 0]) (flip_dims_of b ?r) st"
  have lc: "length c = ?r" using coords_length[OF c] .
  have "dot c (map2 (\<lambda>n s. if n = 1 then 0 else s * es) ns ?rs) = es * dot c ?rs"
    using c st by (intro dot_broadcast) (simp_all add: coords_iff)
  also have "dot c ?rs = (\<Sum>d<?r. c ! d * ?rs ! d)"
    using dot_sum[of c ?rs] lc st by simp
  also have "\<dots> = (\<Sum>d<?r. if b ! d then 0 else c ! d * st ! d)"
    by (rule sum.cong) (simp_all add: restride_nth st flip_dims_set)
  finally have A: "dot c (map2 (\<lambda>n s. if n = 1 then 0 else s * es) ns ?rs) =
      es * (\<Sum>d<?r. if b ! d then 0 else c ! d * st ! d)" .
  have B: "dot (flipc b ns c) st = (\<Sum>d<?r. (if b ! d then ns ! d - 1 - c ! d else c ! d) * st ! d)"
  proof -
    have "dot (flipc b ns c) st = (\<Sum>d<?r. flipc b ns c ! d * st ! d)"
      using dot_sum[of "flipc b ns c" st] lc st b by simp
    also have "\<dots> = (\<Sum>d<?r. (if b ! d then ns ! d - 1 - c ! d else c ! d) * st ! d)"
      using lc b by (intro sum.cong) (simp_all add: flipc_nth)
    finally show ?thesis .
  qed
  have C: "es * (\<Sum>d<?r. if b ! d then 0 else c ! d * st ! d) +
           (\<Sum>d<?r. if b ! d then (ns ! d - c ! d - 1) * st ! d * es else 0) =
           es * (\<Sum>d<?r. (if b ! d then ns ! d - 1 - c ! d else c ! d) * st ! d)"
    unfolding sum_distrib_left sum.distrib[symmetric]
    by (rule sum.cong) (simp_all add: algebra_simps)
  have D: "operand_strides R = map2 (\<lambda>n s. if n = 1 then 0 else s * es) ns ?rs"
    by (auto simp: operand_strides_def R)
  show ?thesis
    unfolding D A B flip_dims_sum by (rule C)
qed

lemma store_long_last:
  "k < length cells \<Longrightarrow>
   store_long (m @ [Longs cells]) (length m) (int k) v = Inr (m @ [Longs (cells[k := Some v])])"
  by (simp add: store_long_def)

lemma fill_long:
  "k \<le> length cells \<Longrightarrow>
   foldM (\<lambda>i m'. store_long m' (length m) (0 + i) (g i)) (map int [0..<k]) (m @ [Longs cells]) =
   Inr (m @ [Longs (map (\<lambda>i. Some (g (int i))) [0..<k] @ drop k cells)])"
proof (induction k)
  case 0
  then show ?case by simp
next
  case (Suc k)
  let ?X = "map (\<lambda>i. Some (g (int i))) [0..<k] @ drop k cells"
  have k: "k < length ?X" using Suc.prems by simp
  have upd: "?X[k := Some (g (int k))] =
             map (\<lambda>i. Some (g (int i))) [0..<Suc k] @ drop (Suc k) cells"
  proof -
    have "drop k cells = cells ! k # drop (Suc k) cells"
      using Suc.prems by (simp add: Cons_nth_drop_Suc)
    then show ?thesis by (simp add: list_update_append)
  qed
  show ?case
    using Suc store_long_last[of k ?X m "g (int k)"] k upd
    by (simp add: foldM_append del: upt_Suc) (simp add: foldM_append)
qed

lemma prod_list_unit: "d < r \<Longrightarrow> prod_list ((replicate r (1::int))[d := n]) = n"
proof (induction r arbitrary: d)
  case 0
  then show ?case by simp
next
  case (Suc r)
  then show ?case by (cases d) simp_all
qed

lemma build_indices_step_ok:
  assumes "d < length (sizes t)" "0 \<le> sizes t ! d"
  shows "build_indices_step t d (m, acc) =
         Inr (m @ [idx_table t d], acc @ [idx_tensor t (length m) d])"
proof -
  let ?n = "nat (sizes t ! d)"
  have "foldM (\<lambda>i m'. store_long m' (length m) (0 + i)
                  ((sizes t ! d - i - 1) * (strides t ! d) * itemsize t))
          (map int [0..<?n]) (m @ [Longs (replicate ?n None)]) =
        Inr (m @ [Longs (map (\<lambda>i. Some ((sizes t ! d - int i - 1) * (strides t ! d) * itemsize t))
                    [0..<?n] @ drop ?n (replicate ?n None))])"
    by (rule fill_long) simp
  then show ?thesis
    using assms
    by (simp add: build_indices_step_def build_index_def at_empty_long_def prod_list_unit
        idx_table_def idx_tensor_def Let_def)
qed

lemma build_indices_fold:
  "\<forall>d\<in>set ds. d < length (sizes t) \<and> 0 \<le> sizes t ! d \<Longrightarrow>
   foldM (build_indices_step t) ds (m, acc) =
   Inr (m @ map (idx_table t) ds, acc @ idx_tensors t (length m) ds)"
proof (induction ds arbitrary: m acc)
  case Nil
  then show ?case by simp
next
  case (Cons d ds)
  then show ?case
    using Cons.IH[of "m @ [idx_table t d]" "acc @ [idx_tensor t (length m) d]"]
    by (simp add: build_indices_step_ok)
qed

lemma build_indices_loop_ok:
  "\<forall>d\<in>set ds. d < length (sizes t) \<and> 0 \<le> sizes t ! d \<Longrightarrow>
   build_indices_loop m t ds = Inr (m @ map (idx_table t) ds, idx_tensors t (length m) ds)"
  using build_indices_fold[of ds t m "[]"] by (simp add: build_indices_loop_def)

lemma sc_tl: "tl (stride_contiguous_v (x # xs)) = stride_contiguous_v xs"
proof (cases xs)
  case Nil
  then show ?thesis by simp
next
  case (Cons m ms)
  obtain s ss where "stride_contiguous_v (m # ms) = s # ss"
    using sc_length[of "m # ms"] by (cases "stride_contiguous_v (m # ms)") auto
  then show ?thesis using Cons by simp
qed

lemma sc_nth_Suc: "stride_contiguous_v (x # xs) ! Suc d = stride_contiguous_v xs ! d"
  using sc_tl[of x xs] sc_length[of "x # xs"]
  by (cases "stride_contiguous_v (x # xs)") auto

lemma sc_unit: "d < r \<Longrightarrow> stride_contiguous_v ((replicate r 1)[d := n]) ! d = 1"
proof (induction r arbitrary: d)
  case 0
  then show ?case by simp
next
  case (Suc r)
  show ?case
  proof (cases d)
    case 0
    have "list_all (\<lambda>n. 0 < n) (replicate r (1::int))" by (simp add: list_all_iff)
    then show ?thesis using 0 by (simp add: sc_Cons)
  next
    case (Suc d')
    then show ?thesis using Suc.IH[of d'] Suc.prems by (simp add: sc_nth_Suc)
  qed
qed

lemma idx_dot:
  assumes d: "d < length (sizes t)" and c: "c \<in> set (coords (sizes t))"
  shows "dot c (operand_strides (idx_tensor t bf d)) = 8 * c ! d"
proof -
  let ?r = "length (sizes t)"
  let ?sz = "(replicate ?r 1)[d := sizes t ! d]"
  let ?os = "operand_strides (idx_tensor t bf d)"
  have os: "?os = map2 (\<lambda>n s. if n = 1 then 0 else s * 8) ?sz (stride_contiguous_v ?sz)"
    by (auto simp: operand_strides_def idx_tensor_def)
  have len: "length ?os = ?r" by (simp add: os)
  have lc: "length c = ?r" using coords_length[OF c] .
  have cd: "0 \<le> c ! d \<and> c ! d < sizes t ! d" using coords_nth[OF c d] .
  have tm: "c ! k * ?os ! k = (if k = d then 8 * c ! d else 0)" if "k < ?r" for k
  proof (cases "k = d")
    case True
    then show ?thesis using that cd by (auto simp: os sc_unit)
  next
    case False
    then show ?thesis using that by (simp add: os)
  qed
  have "dot c ?os = (\<Sum>k<?r. c ! k * ?os ! k)"
    using dot_sum[of c ?os] lc len by simp
  also have "\<dots> = (\<Sum>k<?r. if k = d then 8 * c ! d else 0)"
    by (rule sum.cong) (simp_all add: tm)
  also have "\<dots> = 8 * c ! d" using d by simp
  finally show ?thesis .
qed

lemma idx_read:
  assumes d: "d < length (sizes t)" and c: "c \<in> set (coords (sizes t))"
    and m: "bf < length m" "m ! bf = idx_table t d"
  shows "load_long_at m (ptr_add (operand_ptr (idx_tensor t bf d))
            (dot c (operand_strides (idx_tensor t bf d)))) =
         Inr ((sizes t ! d - c ! d - 1) * (strides t ! d) * itemsize t)"
proof -
  have cd: "0 \<le> c ! d \<and> c ! d < sizes t ! d" using coords_nth[OF c d] .
  have p: "ptr_add (operand_ptr (idx_tensor t bf d)) (dot c (operand_strides (idx_tensor t bf d)))
           = (bf, 8 * c ! d)"
    unfolding idx_dot[OF d c] by (simp add: ptr_add_def operand_ptr_def idx_tensor_def)
  have n: "nat (c ! d) < nat (sizes t ! d)" using cd by simp
  show ?thesis
    unfolding p using m cd n
    by (simp add: load_long_at_def load_long_def idx_table_def)
qed

lemma idx_reads:
  assumes "\<forall>d\<in>set ds. d < length (sizes t)" and c: "c \<in> set (coords (sizes t))"
    and "\<forall>j<length ds. bf + j < length m \<and> m ! (bf + j) = idx_table t (ds ! j)"
  shows "list_all2 (\<lambda>p v. load_long_at m p = Inr v)
           (ptrs_at (map operand_ptr (idx_tensors t bf ds))
                    (map operand_strides (idx_tensors t bf ds)) c)
           (map (\<lambda>d. (sizes t ! d - c ! d - 1) * (strides t ! d) * itemsize t) ds)"
  using assms(1,3)
proof (induction ds arbitrary: bf)
  case Nil
  then show ?case by (simp add: ptrs_at_def)
next
  case (Cons d ds)
  have hd: "bf < length m \<and> m ! bf = idx_table t d" using Cons.prems(2) by force
  have tl: "\<forall>j<length ds. Suc bf + j < length m \<and> m ! (Suc bf + j) = idx_table t (ds ! j)"
  proof (intro allI impI)
    fix j assume "j < length ds"
    then have "bf + Suc j < length m \<and> m ! (bf + Suc j) = idx_table t ((d # ds) ! Suc j)"
      using Cons.prems(2) by (metis length_Cons Suc_less_eq)
    then show "Suc bf + j < length m \<and> m ! (Suc bf + j) = idx_table t (ds ! j)" by simp
  qed
  have IH: "list_all2 (\<lambda>p v. load_long_at m p = Inr v)
           (ptrs_at (map operand_ptr (idx_tensors t (Suc bf) ds))
                    (map operand_strides (idx_tensors t (Suc bf) ds)) c)
           (map (\<lambda>d. (sizes t ! d - c ! d - 1) * (strides t ! d) * itemsize t) ds)"
    using Cons.IH[OF _ tl] Cons.prems(1) by simp
  have d: "d < length (sizes t)" using Cons.prems(1) by simp
  show ?case
    using IH idx_read[OF d c, of bf m] hd
    by (simp add: ptrs_at_def)
qed

lemma foldM_acc_sum:
  "\<forall>j\<in>set js. g j = Inr (val j) \<Longrightarrow>
   foldM (\<lambda>j off. ebind (g j) (\<lambda>x. Inr (off + x))) js acc = Inr (acc + sum_list (map val js))"
  by (induction js arbitrary: acc) (simp_all add: algebra_simps)

lemma Indexer_get_sum:
  assumes "list_all2 (\<lambda>p v. load_long_at m p = Inr v) rest vals" "rest \<noteq> []"
    "nat k = length rest"
  shows "Indexer_get \<lparr>num_indexers = k, indexers = rest,
                      indexer_strides = map (\<lambda>_. 0) rest\<rparr> 0 m = Inr (sum_list vals)"
proof -
  let ?ix = "\<lparr>num_indexers = k, indexers = rest, indexer_strides = map (\<lambda>_. 0) rest\<rparr>"
  have len: "length vals = length rest" using assms(1) by (simp add: list_all2_lengthD)
  have rd: "read_indexer ?ix j 0 m = Inr (vals ! j)" if "j < length rest" for j
    using that assms(1) by (simp add: read_indexer_def slot_def list_all2_conv_all_nth)
  have n: "0 < length rest" using assms(2) by simp
  have "Indexer_get ?ix 0 m =
        foldM (\<lambda>j off. ebind (read_indexer ?ix j 0 m) (\<lambda>x. Inr (off + x)))
          [1..<length rest] (vals ! 0)"
    using rd[OF n] assms(3) by (simp add: Indexer_get_def)
  also have "\<dots> = Inr (vals ! 0 + sum_list (map ((!) vals) [1..<length rest]))"
    by (rule foldM_acc_sum) (simp add: rd)
  also have "vals ! 0 + sum_list (map ((!) vals) [1..<length rest]) =
             sum_list (map ((!) vals) [0..<length rest])"
    using n by (simp add: upt_conv_Cons)
  also have "map ((!) vals) [0..<length rest] = vals"
    using map_nth[of vals] len by simp
  finally show ?thesis .
qed

lemma gather_unfold:
  "gather es nt (dst # src # rest) m =
   ebind (Indexer_get \<lparr>num_indexers = nt - 2, indexers = rest,
                       indexer_strides = map (\<lambda>_. 0) rest\<rparr> 0 m) (\<lambda>offset.
     ebind (load_at es m (ptr_add src offset)) (\<lambda>v. store_at es m dst v))"
  by (simp add: gather_def flip_cpu_kernel_loop_def Let_def split: sum.splits)

lemma idx_tensors_length [simp]: "length (idx_tensors t bf ds) = length ds"
  by (induction ds arbitrary: bf) simp_all

lemma valid_get:
  "valid mem t \<Longrightarrow> c \<in> set (coords (sizes t)) \<Longrightarrow>
   tget mem t c = Inr (projr (tget mem t c))"
  by (cases "tget mem t c") (auto simp: valid_def list_all_iff is_ok_def)

lemma load_take:
  "take n m = mem \<Longrightarrow> bf < length mem \<Longrightarrow> load m bf k = load mem bf k"
  by (auto simp: load_def)

lemma gather_sem:
  fixes mem0 :: "'a heap"
  assumes v: "valid mem0 t" and lb: "length (sizes t) \<le> length b"
    and fs: "fs = flip_dims_of b (length (sizes t))" and ne: "fs \<noteq> []"
    and c: "c \<in> set (coords (sizes t))"
    and inv: "take (length mem0 + length fs) m = mem0 @ map (idx_table t) fs"
    and restr: "restr = as_strided t (sizes t) (fold (\<lambda>d st. st[d := 0]) fs (strides t))"
    and ops: "ops = flip_out mem0 t fs # restr # idx_tensors t (length mem0) fs"
  shows "gather (itemsize t) (int (length ops))
           (ptrs_at (map operand_ptr ops) (map operand_strides ops) c) m =
         store m (length mem0 + length fs) (dot c (stride_contiguous_v (sizes t)))
           (projr (tget mem0 t (flipc b (sizes t) c)))"
proof -
  let ?ns = "sizes t" and ?st = "strides t" and ?es = "itemsize t"
  let ?ob = "length mem0 + length fs"
  let ?out = "flip_out mem0 t fs"
  let ?idxs = "idx_tensors t (length mem0) fs"
  let ?g = "\<lambda>d. (?ns ! d - c ! d - 1) * (?st ! d) * ?es"
  have es: "0 < ?es" and lst: "length ?st = length ?ns" and bt: "buf t < length mem0"
    using v by (simp_all add: valid_def)
  have lenm: "?ob \<le> length m"
    using arg_cong[OF inv, of length] by simp
  have tabs: "\<forall>j<length fs. length mem0 + j < length m \<and>
                m ! (length mem0 + j) = idx_table t (fs ! j)"
  proof (intro allI impI)
    fix j assume j: "j < length fs"
    have "m ! (length mem0 + j) = take ?ob m ! (length mem0 + j)" using j by simp
    also have "\<dots> = idx_table t (fs ! j)" using j by (simp add: inv nth_append)
    finally show "length mem0 + j < length m \<and> m ! (length mem0 + j) = idx_table t (fs ! j)"
      using j lenm by simp
  qed
  have fsr: "\<forall>d\<in>set fs. d < length ?ns" by (simp add: fs flip_dims_set)
  have reads: "list_all2 (\<lambda>p v. load_long_at m p = Inr v)
           (ptrs_at (map operand_ptr ?idxs) (map operand_strides ?idxs) c) (map ?g fs)"
    by (rule idx_reads[OF fsr c tabs])
  have rne: "ptrs_at (map operand_ptr ?idxs) (map operand_strides ?idxs) c \<noteq> []"
    using reads ne by auto
  have rlen: "length (ptrs_at (map operand_ptr ?idxs) (map operand_strides ?idxs) c) = length fs"
    using reads by (simp add: list_all2_lengthD)
  have ig: "Indexer_get \<lparr>num_indexers = int (length ops) - 2,
              indexers = ptrs_at (map operand_ptr ?idxs) (map operand_strides ?idxs) c,
              indexer_strides = map (\<lambda>_. 0)
                (ptrs_at (map operand_ptr ?idxs) (map operand_strides ?idxs) c)\<rparr> 0 m =
            Inr (sum_list (map ?g fs))"
    by (rule Indexer_get_sum[OF reads rne]) (simp add: ops rlen)
  have so: "dot c (operand_strides restr) + sum_list (map ?g fs) = ?es * dot (flipc b ?ns c) ?st"
    unfolding fs by (rule src_offset[OF c lst lb]) (simp_all add: restr as_strided_def fs)
  have srcp: "ptr_add (operand_ptr restr)
                (dot c (operand_strides restr) + sum_list (map ?g fs)) =
              (buf t, ?es * (storage_offset t + dot (flipc b ?ns c) ?st))"
    unfolding so by (simp add: ptr_add_def operand_ptr_def restr as_strided_def algebra_simps)
  have fc: "flipc b ?ns c \<in> set (coords ?ns)" by (rule flipc_coords[OF c lb])
  have ld: "load_at ?es m (buf t, ?es * (storage_offset t + dot (flipc b ?ns c) ?st)) =
            Inr (projr (tget mem0 t (flipc b ?ns c)))"
  proof -
    have "take (length mem0) m = mem0"
      using arg_cong[OF inv, of "take (length mem0)"] by (simp add: min_def)
    then have "load m (buf t) k = load mem0 (buf t) k" for k
      using bt by (rule load_take)
    then show ?thesis
      using es valid_get[OF v fc] by (simp add: load_at_def tget_def)
  qed
  have dstp: "ptr_add (operand_ptr ?out) (dot c (operand_strides ?out)) =
              (?ob, ?es * dot c (stride_contiguous_v ?ns))"
  proof -
    have "operand_strides ?out =
          map2 (\<lambda>n s. if n = 1 then 0 else s * ?es) ?ns (stride_contiguous_v ?ns)"
      by (auto simp: operand_strides_def flip_out_def)
    then have "dot c (operand_strides ?out) = ?es * dot c (stride_contiguous_v ?ns)"
      using dot_broadcast[of c ?ns "stride_contiguous_v ?ns" ?es] c by (simp add: coords_iff)
    then show ?thesis by (simp add: ptr_add_def operand_ptr_def flip_out_def)
  qed
  have st: "store_at ?es m (?ob, ?es * dot c (stride_contiguous_v ?ns)) x =
            store m ?ob (dot c (stride_contiguous_v ?ns)) x" for x
    using es by (simp add: store_at_def)
  have P: "ptrs_at (map operand_ptr ops) (map operand_strides ops) c =
           ptr_add (operand_ptr ?out) (dot c (operand_strides ?out)) #
           ptr_add (operand_ptr restr) (dot c (operand_strides restr)) #
           ptrs_at (map operand_ptr ?idxs) (map operand_strides ?idxs) c"
    by (simp add: ops ptrs_at_def)
  show ?thesis
    unfolding P gather_unfold ig by (simp add: srcp ld dstp st)
qed

lemma store_ok:
  "bf < length m \<Longrightarrow> m ! bf = Elems cells \<Longrightarrow> k < length cells \<Longrightarrow>
   store m bf (int k) x = Inr (m[bf := Elems (cells[k := Some x])])"
  by (simp add: store_def)

lemma store_fill:
  "bf < length m \<Longrightarrow> m ! bf = Elems cells \<Longrightarrow> map lin xs = map int [k..<k + length xs] \<Longrightarrow>
   k + length xs \<le> length cells \<Longrightarrow>
   foldM (\<lambda>c m. store m bf (lin c) (v c)) xs m =
   Inr (m[bf := Elems (take k cells @ map (\<lambda>c. Some (v c)) xs @ drop (k + length xs) cells)])"
proof (induction xs arbitrary: k m cells)
  case Nil
  have "m[bf := Elems cells] = m" using Nil(1,2) by (simp add: list_update_same_conv)
  then show ?case using Nil by simp
next
  case (Cons x xs)
  let ?cells = "cells[k := Some (v x)]"
  let ?m = "m[bf := Elems ?cells]"
  have upt: "[k..<k + length (x # xs)] = k # [Suc k..<Suc k + length xs]"
    using upt_conv_Cons[of k "k + length (x # xs)"] by simp
  have lin: "lin x = int k" and rest: "map lin xs = map int [Suc k..<Suc k + length xs]"
    using Cons.prems(3) unfolding upt by simp_all
  have k: "k < length cells" using Cons.prems(4) by simp
  have s: "store m bf (lin x) (v x) = Inr ?m"
    unfolding lin using Cons.prems(1,2) k by (rule store_ok)
  have IH: "foldM (\<lambda>c m. store m bf (lin c) (v c)) xs ?m =
        Inr (?m[bf := Elems (take (Suc k) ?cells @ map (\<lambda>c. Some (v c)) xs @
                             drop (Suc k + length xs) ?cells)])"
    using Cons.prems by (intro Cons.IH[OF _ _ rest]) simp_all
  have t: "take (Suc k) ?cells = take k cells @ [Some (v x)]"
    using k by (simp add: take_Suc_conv_app_nth)
  have d: "drop (Suc k + length xs) ?cells = drop (k + length (x # xs)) cells"
    by simp
  show ?case
    using s IH by (simp add: t d)
qed

lemma pos_sizes:
  "list_all (\<lambda>n. 0 \<le> n) ns \<Longrightarrow> prod_list ns \<noteq> 0 \<Longrightarrow> list_all (\<lambda>n. (0::int) < n) ns"
  by (induction ns) auto

lemma idx_strides_length:
  "\<forall>d\<in>set ds. d < length (sizes t) \<Longrightarrow>
   \<forall>x\<in>set (idx_tensors t bf ds). length (operand_strides x) = length (sizes t)"
  by (induction ds arbitrary: bf) (auto simp: operand_strides_def idx_tensor_def)

lemma kernel_ok:
  fixes mem0 :: "'a heap"
  assumes v: "valid mem0 t" and lb: "length (sizes t) \<le> length b"
    and fs: "fs = flip_dims_of b (length (sizes t))" and ne: "fs \<noteq> [] \<or> numel t = 0"
    and restr: "restr = as_strided t (sizes t) (fold (\<lambda>d st. st[d := 0]) fs (strides t))"
    and ops: "ops = flip_out mem0 t fs # restr # idx_tensors t (length mem0) fs"
    and it: "iter = \<lparr>it_shape = sizes t, it_data = map operand_ptr ops,
                     it_strides = map operand_strides ops, it_output = flip_out mem0 t fs\<rparr>"
  shows "flip_cpu_kernel (itemsize t) iter
           (mem0 @ map (idx_table t) fs @ [Elems (replicate (nat (numel t)) None)]) =
         Inr (mem0 @ map (idx_table t) fs @ [Elems (flip_cells mem0 t b)])"
proof (cases "numel t = 0")
  case True
  then have "coords (sizes t) = []" by (simp add: numel_def coords_empty)
  then show ?thesis
    using True by (simp add: flip_cpu_kernel_def for_each_def it numel_def flip_cells_def)
next
  case False
  let ?ns = "sizes t" and ?es = "itemsize t"
  let ?ob = "length mem0 + length fs"
  let ?mem1 = "mem0 @ map (idx_table t) fs"
  let ?mem2 = "?mem1 @ [Elems (replicate (nat (numel t)) None)] :: 'a heap"
  let ?lin = "\<lambda>c. dot c (stride_contiguous_v ?ns)"
  let ?v = "\<lambda>c. projr (tget mem0 t (flipc b ?ns c))"
  have fne: "fs \<noteq> []" using ne False by simp
  have nn: "list_all (\<lambda>n. 0 \<le> n) ?ns" and lst: "length (strides t) = length ?ns"
    using v by (simp_all add: valid_def)
  have pos: "list_all (\<lambda>n. 0 < n) ?ns"
    using pos_sizes[OF nn] False by (simp add: numel_def)
  have lin: "map ?lin (coords ?ns) = map int [0..<nat (numel t)]"
    using linear_coords[OF pos] by (simp add: numel_def)
  have lenc: "length (coords ?ns) = nat (numel t)"
    using arg_cong[OF lin, of length] by simp
  have fsr: "\<forall>d\<in>set fs. d < length ?ns" by (simp add: fs flip_dims_set)
  have l1: "length (map operand_strides ops) = length (map operand_ptr ops)" by simp
  have l2: "2 \<le> length (map operand_ptr ops)" by (simp add: ops)
  have l3: "\<forall>st\<in>set (map operand_strides ops). length st = length ?ns"
    using idx_strides_length[OF fsr, of "length mem0"] lst
    by (auto simp: ops operand_strides_def flip_out_def restr as_strided_def)
  have "flip_cpu_kernel ?es iter ?mem2 =
        for_each_rec (flip_cpu_kernel_loop ?es (int (length ops))) ?ns
          (map operand_strides ops) (map operand_ptr ops) ?mem2"
    using False by (simp add: flip_cpu_kernel_def for_each_def it numel_def)
  also have "\<dots> = foldM (\<lambda>c. gather ?es (int (length ops))
                        (ptrs_at (map operand_ptr ops) (map operand_strides ops) c))
                     (coords ?ns) ?mem2"
    by (rule for_each_rec_flat[OF l1 l2 l3])
  also have "\<dots> = foldM (\<lambda>c m. store m ?ob (?lin c) (?v c)) (coords ?ns) ?mem2"
  proof (rule foldM_cong_inv[where I = "\<lambda>m. take ?ob m = ?mem1"])
    show "take ?ob ?mem2 = ?mem1" by simp
  next
    fix c and m :: "'a heap"
    assume "c \<in> set (coords ?ns)" "take ?ob m = ?mem1"
    then show "gather ?es (int (length ops))
                 (ptrs_at (map operand_ptr ops) (map operand_strides ops) c) m =
               store m ?ob (?lin c) (?v c)"
      by (intro gather_sem[OF v lb fs fne _ _ restr ops])
  next
    fix c and m m' :: "'a heap"
    assume "take ?ob m = ?mem1" "store m ?ob (?lin c) (?v c) = Inr m'"
    then show "take ?ob m' = ?mem1"
      by (auto simp: store_def split: if_splits buffer.splits)
  qed
  also have "\<dots> = Inr (?mem2[?ob := Elems (take 0 (replicate (nat (numel t)) None) @
                 map (\<lambda>c. Some (?v c)) (coords ?ns) @
                 drop (0 + length (coords ?ns)) (replicate (nat (numel t)) None))])"
    by (rule store_fill) (simp_all add: lin lenc nth_append)
  also have "\<dots> = Inr (?mem1 @ [Elems (flip_cells mem0 t b)])"
    by (simp add: lenc flip_cells_def list_update_append)
  finally show ?thesis by simp
qed

lemma foldM_inv:
  assumes "foldM f xs s = Inr s'" "I s"
    and "\<And>x s s'. x \<in> set xs \<Longrightarrow> I s \<Longrightarrow> f x s = Inr s' \<Longrightarrow> I s'"
  shows "I s'"
  using assms
proof (induction xs arbitrary: s)
  case Nil
  then show ?case by simp
next
  case (Cons x xs)
  from Cons.prems(1) obtain s1 where s1: "f x s = Inr s1" "foldM f xs s1 = Inr s'"
    by (auto split: sum.splits)
  have "I s1" using Cons.prems(3)[of x s s1] Cons.prems(2) s1 by simp
  then show ?case using Cons.IH[OF s1(2)] Cons.prems(3) by auto
qed

lemma bitset_props:
  assumes "dim_list_to_bitset dims r = Inr b"
  shows "length b = 64" "r \<le> 64"
proof -
  have r: "\<not> dim_bitset_size < r" and
    f: "foldM (\<lambda>d seen. ebind (maybe_wrap_dim d r)
                   (\<lambda>i. if seen ! i then Inl InvalidArgument else Inr (seen[i := True])))
             dims (replicate (nat dim_bitset_size) False) = Inr b"
    using assms by (auto simp: dim_list_to_bitset_def split: if_splits)
  show "r \<le> 64" using r by (simp add: dim_bitset_size_def)
  show "length b = 64"
    by (rule foldM_inv[OF f, where I = "\<lambda>s. length s = 64"])
       (auto simp: dim_bitset_size_def ebind_eq_Inr split: if_splits)
qed

lemma tget_append:
  "buf t < length mem \<Longrightarrow> tget (mem @ ext) t c = tget mem t c"
  by (simp add: tget_def load_def nth_append)

lemma valid_append: "valid mem t \<Longrightarrow> valid (mem @ ext) t"
  by (auto simp: valid_def list_all_iff tget_append)

lemma flip_cpu_ok:
  fixes mem :: "'a heap"
  assumes v: "valid mem t" and bs: "dim_list_to_bitset dims (dim t) = Inr b"
    and fs: "fs = flip_dims_of b (length (sizes t))" and ne: "fs \<noteq> [] \<or> numel t = 0"
  shows "flip_cpu mem t dims =
           Inr (mem @ map (idx_table t) fs @ [Elems (flip_cells mem t b)], flip_out mem t fs)"
    and "flip_cpu_internal mem t dims =
           Inr (mem @ map (idx_table t) fs @ [Elems (flip_cells mem t b)], flip_out mem t fs)"
proof -
  let ?restr = "as_strided t (sizes t) (fold (\<lambda>d st. st[d := 0]) fs (strides t))"
  let ?ops = "flip_out mem t fs # ?restr # idx_tensors t (length mem) fs"
  let ?iter = "\<lparr>it_shape = sizes t, it_data = map operand_ptr ?ops,
                it_strides = map operand_strides ?ops, it_output = flip_out mem t fs\<rparr>"
  have lb: "length (sizes t) \<le> length b"
    using bitset_props[OF bs] by (simp add: dim_def)
  have nn: "list_all (\<lambda>n. 0 \<le> n) (sizes t)" using v by (simp add: valid_def)
  have fsr: "\<forall>d\<in>set fs. d < length (sizes t) \<and> 0 \<le> sizes t ! d"
    using nn by (auto simp: fs flip_dims_set list_all_length)
  have bi: "build_indices_loop mem t fs =
            Inr (mem @ map (idx_table t) fs, idx_tensors t (length mem) fs)"
    by (rule build_indices_loop_ok[OF fsr])
  have mi: "make_index_iterator (mem @ map (idx_table t) fs) ?restr
              (idx_tensors t (length mem) fs) =
            ((mem @ map (idx_table t) fs) @ [Elems (replicate (nat (numel t)) None)], ?iter)"
    by (simp add: make_index_iterator_def empty_like_def at_empty_def as_strided_def
        flip_out_def numel_def)
  have k: "flip_cpu_kernel (itemsize t) ?iter
           (mem @ map (idx_table t) fs @ [Elems (replicate (nat (numel t)) None)]) =
         Inr (mem @ map (idx_table t) fs @ [Elems (flip_cells mem t b)])"
    by (rule kernel_ok[OF v lb fs ne refl refl refl])
  show "flip_cpu mem t dims =
           Inr (mem @ map (idx_table t) fs @ [Elems (flip_cells mem t b)], flip_out mem t fs)"
    using k by (simp add: flip_cpu_def bs Let_def fs[symmetric] bi mi flip_stub_def)
  show "flip_cpu_internal mem t dims =
           Inr (mem @ map (idx_table t) fs @ [Elems (flip_cells mem t b)], flip_out mem t fs)"
    using k by (simp add: flip_cpu_internal_def bs Let_def fs[symmetric] bi mi)
qed

lemma flip_out_get:
  fixes mem :: "'a heap"
  assumes v: "valid mem t" and lb: "length (sizes t) \<le> length b"
    and c: "c \<in> set (coords (sizes t))"
  shows "tget (mem @ map (idx_table t) fs @ [Elems (flip_cells mem t b)]) (flip_out mem t fs) c =
         tget mem t (flipc b (sizes t) c)"
proof -
  let ?ns = "sizes t"
  let ?M = "mem @ map (idx_table t) fs @ [Elems (flip_cells mem t b)]"
  have nn: "list_all (\<lambda>n. 0 \<le> n) ?ns" using v by (simp add: valid_def)
  have nz: "prod_list ?ns \<noteq> 0" using c coords_empty[of ?ns] by auto
  have pos: "list_all (\<lambda>n. 0 < n) ?ns" by (rule pos_sizes[OF nn nz])
  have lin: "map (\<lambda>c. dot c (stride_contiguous_v ?ns)) (coords ?ns) =
             map int [0..<nat (prod_list ?ns)]"
    by (rule linear_coords[OF pos])
  have lenc: "length (coords ?ns) = nat (prod_list ?ns)"
    using arg_cong[OF lin, of length] by simp
  obtain k where k: "k < length (coords ?ns)" "coords ?ns ! k = c"
    using c by (auto simp: in_set_conv_nth)
  have "dot c (stride_contiguous_v ?ns) = map (\<lambda>c. dot c (stride_contiguous_v ?ns)) (coords ?ns) ! k"
    using k by simp
  also have "\<dots> = int k" unfolding lin using k lenc by simp
  finally have d: "dot c (stride_contiguous_v ?ns) = int k" .
  have "tget ?M (flip_out mem t fs) c = load ?M (length mem + length fs) (int k)"
    by (simp add: tget_def flip_out_def d)
  also have "\<dots> = Inr (projr (tget mem t (flipc b ?ns (coords ?ns ! k))))"
    using k(1) by (simp add: load_def nth_append flip_cells_def)
  also have "\<dots> = Inr (projr (tget mem t (flipc b ?ns c)))"
    by (simp only: k(2))
  also have "\<dots> = tget mem t (flipc b ?ns c)"
    using valid_get[OF v flipc_coords[OF c lb]] by simp
  finally show ?thesis .
qed

lemma flip_out_valid:
  fixes mem :: "'a heap"
  assumes v: "valid mem t" and lb: "length (sizes t) \<le> length b"
  shows "valid (mem @ map (idx_table t) fs @ [Elems (flip_cells mem t b)]) (flip_out mem t fs)"
proof -
  have "is_ok (tget (mem @ map (idx_table t) fs @ [Elems (flip_cells mem t b)])
                (flip_out mem t fs) c)" if cc: "c \<in> set (coords (sizes t))" for c
  proof -
    obtain x where "tget mem t (flipc b (sizes t) c) = Inr x"
      using valid_get[OF v flipc_coords[OF cc lb]] by blast
    then show ?thesis
      using flip_out_get[OF v lb cc, of fs] by (simp add: is_ok_def)
  qed
  then show ?thesis
    using v by (simp add: valid_def list_all_iff flip_out_def)
qed

lemma bitset_nil: "r \<le> 64 \<Longrightarrow> dim_list_to_bitset [] r = Inr (replicate 64 False)"
  by (simp add: dim_list_to_bitset_def dim_bitset_size_def)

lemma flip_dims_none: "r \<le> 64 \<Longrightarrow> flip_dims_of (replicate 64 False) r = []"
  by (auto simp: flip_dims_of_def filter_empty_conv)

lemma foldM_fail:
  "xs \<noteq> [] \<Longrightarrow> (\<And>x s. f x s = Inl e) \<Longrightarrow> foldM f xs s = Inl e"
  by (cases xs) simp_all

lemma Indexer_get_none: "indexers ix = [] \<Longrightarrow> Indexer_get ix idx mem = Inl OutOfBounds"
  by (simp add: Indexer_get_def read_indexer_def slot_def)

lemma gather_none: "gather es nt [dst, src] m = Inl OutOfBounds"
  by (simp add: gather_unfold Indexer_get_none)

lemma coords_nonempty:
  assumes "list_all (\<lambda>n. 0 \<le> n) ns" "prod_list ns \<noteq> 0"
  shows "coords ns \<noteq> []"
proof -
  have pos: "list_all (\<lambda>n. 0 < n) ns" by (rule pos_sizes[OF assms])
  have "0 < prod_list ns" using pos by (induction ns) auto
  moreover have "length (coords ns) = nat (prod_list ns)"
    using arg_cong[OF linear_coords[OF pos], of length] by simp
  ultimately show ?thesis by auto
qed

lemma flip_no_tables:
  fixes mem :: "'a heap"
  assumes v: "valid mem t" and nz: "numel t \<noteq> 0"
    and bs: "dim_list_to_bitset dims (dim t) = Inr b"
    and fd: "flip_dims_of b (length (sizes t)) = []"
  shows "flip_cpu_internal mem t dims = Inl OutOfBounds" "flip_cpu mem t dims = Inl OutOfBounds"
proof -
  let ?restr = "as_strided t (sizes t) (strides t)"
  let ?out = "flip_out mem t []"
  let ?ops = "[?out, ?restr]"
  let ?iter = "\<lparr>it_shape = sizes t, it_data = map operand_ptr ?ops,
                it_strides = map operand_strides ?ops, it_output = ?out\<rparr>"
  let ?mem2 = "mem @ [Elems (replicate (nat (numel t)) None)] :: 'a heap"
  have lst: "length (strides t) = length (sizes t)" and nn: "list_all (\<lambda>n. 0 \<le> n) (sizes t)"
    using v by (simp_all add: valid_def)
  have mi: "make_index_iterator mem ?restr [] = (?mem2, ?iter)"
    by (simp add: make_index_iterator_def empty_like_def at_empty_def as_strided_def
        flip_out_def numel_def)
  have l3: "\<forall>st\<in>set (map operand_strides ?ops). length st = length (sizes t)"
    using lst by (simp add: operand_strides_def flip_out_def as_strided_def)
  have ne: "coords (sizes t) \<noteq> []"
    using coords_nonempty[OF nn] nz by (simp add: numel_def)
  have "flip_cpu_kernel (itemsize t) ?iter ?mem2 =
        for_each_rec (flip_cpu_kernel_loop (itemsize t) (int (length ?ops))) (sizes t)
          (map operand_strides ?ops) (map operand_ptr ?ops) ?mem2"
    using nz by (simp add: flip_cpu_kernel_def for_each_def numel_def)
  also have "\<dots> = foldM (\<lambda>c. gather (itemsize t) (int (length ?ops))
                        (ptrs_at (map operand_ptr ?ops) (map operand_strides ?ops) c))
                     (coords (sizes t)) ?mem2"
    by (rule for_each_rec_flat[OF _ _ l3]) simp_all
  also have "\<dots> = Inl OutOfBounds"
    by (rule foldM_fail[OF ne]) (simp add: ptrs_at_def gather_none)
  finally have k: "flip_cpu_kernel (itemsize t) ?iter ?mem2 = Inl OutOfBounds" .
  show "flip_cpu_internal mem t dims = Inl OutOfBounds"
    using k by (simp add: flip_cpu_internal_def bs fd build_indices_loop_def mi)
  show "flip_cpu mem t dims = Inl OutOfBounds"
    using k by (simp add: flip_cpu_def bs fd build_indices_loop_def mi flip_stub_def)
qed

lemma flip_without_axes:
  fixes mem :: "'a heap"
  assumes v: "valid mem t" and nz: "numel t \<noteq> 0" and r: "dim t \<le> 64"
  shows "flip_cpu_internal mem t [] = Inl OutOfBounds" "flip_cpu mem t [] = Inl OutOfBounds"
proof -
  have bs: "dim_list_to_bitset [] (dim t) = Inr (replicate 64 False)"
    using r by (rule bitset_nil)
  have fd: "flip_dims_of (replicate 64 False) (length (sizes t)) = []"
    using r by (intro flip_dims_none) (simp add: dim_def)
  show "flip_cpu_internal mem t [] = Inl OutOfBounds"
    by (rule flip_no_tables(1)[OF v nz bs fd])
  show "flip_cpu mem t [] = Inl OutOfBounds"
    by (rule flip_no_tables(2)[OF v nz bs fd])
qed

lemma wrap64_id: "- (2 ^ 63) \<le> x \<Longrightarrow> x < 2 ^ 63 \<Longrightarrow> wrap64 x = x"
  by (simp add: wrap64_def)

lemma norm_k: "(4 + (k smod 4)) smod 4 = k mod 4" for k :: int
proof -
  have a: "k smod 4 = (if 0 \<le> k then k mod 4 else - ((- k) mod 4))"
    by (simp add: smod_int_alt_def sgn_if abs_if)
  have neg: "(- k) mod 4 = (if k mod 4 = 0 then 0 else 4 - k mod 4)"
    by presburger
  have b: "0 \<le> x \<Longrightarrow> x smod 4 = x mod 4" for x :: int
    by (simp add: smod_int_alt_def sgn_if)
  have m: "0 \<le> k mod 4" "k mod 4 < 4" by simp_all
  have c: "0 \<le> 4 + (k smod 4)" unfolding a neg using m by (simp split: if_splits)
  show ?thesis
    unfolding b[OF c] unfolding a neg using m by (simp split: if_splits)
qed

lemma maybe_wrap_dim_ok:
  "- r \<le> d \<Longrightarrow> d < r \<Longrightarrow> maybe_wrap_dim d r = Inr (wrapped d r)"
  by (simp add: maybe_wrap_dim_def wrapped_def)

lemma wrapped_less: "- r \<le> d \<Longrightarrow> d < r \<Longrightarrow> int (wrapped d r) < r"
  by (simp add: wrapped_def)

lemma wrapped_int:
  "- r \<le> d \<Longrightarrow> d < r \<Longrightarrow> int (wrapped d r) = (if d < 0 then d + r else d)"
  by (simp add: wrapped_def)

lemma wrapped_neq:
  assumes "- r \<le> d0" "d0 < r" "- r \<le> d1" "d1 < r" "d0 \<noteq> d1" "\<bar>d0 - d1\<bar> \<noteq> r"
  shows "wrapped d0 r \<noteq> wrapped d1 r"
proof
  assume "wrapped d0 r = wrapped d1 r"
  then have "int (wrapped d0 r) = int (wrapped d1 r)" by simp
  then have "(if d0 < 0 then d0 + r else d0) = (if d1 < 0 then d1 + r else d1)"
    using assms by (simp only: wrapped_int)
  then show False using assms by (simp split: if_splits)
qed

lemma wrap64_small: "\<bar>x\<bar> < 9223372036854775808 \<Longrightarrow> wrap64 x = x"
  by (simp add: wrap64_def)

lemma rot90_check_pair:
  assumes "r < 2 ^ 62"
  shows "rot90_check r [d0, d1] =
         (if rot90_invalid r [d0, d1] then Inl InvalidArgument else Inr (d0, d1))"
proof (cases "- r \<le> d0 \<and> d0 < r \<and> - r \<le> d1 \<and> d1 < r")
  case True
  have R: "r < 4611686018427387904" using assms by simp
  have "\<bar>d0 - d1\<bar> < 9223372036854775808" using True R by linarith
  then have w1: "wrap64 (d0 - d1) = d0 - d1" by (rule wrap64_small)
  have "\<bar>\<bar>d0 - d1\<bar>\<bar> < 9223372036854775808" using True R by linarith
  then have w2: "wrap64 \<bar>d0 - d1\<bar> = \<bar>d0 - d1\<bar>" by (rule wrap64_small)
  have inv: "rot90_invalid r [d0, d1] \<longleftrightarrow> r < 2 \<or> d0 = d1 \<or> \<bar>d0 - d1\<bar> = r"
    using True by (simp add: rot90_invalid_def, linarith?)
  have w3: "\<not> r < 2 \<Longrightarrow> wrap64 r = r" using R by (intro wrap64_small) linarith
  show ?thesis
    unfolding inv using True by (simp add: rot90_check_def w1 w2 w3)
next
  case False
  then have "rot90_invalid r [d0, d1]" by (simp add: rot90_invalid_def, linarith?)
  moreover have "rot90_check r [d0, d1] = Inl InvalidArgument"
    using False
    by (cases "d0 < r \<and> - r \<le> d0"; cases "d1 < r \<and> - r \<le> d1")
       (simp_all add: rot90_check_def, blast+)
  ultimately show ?thesis by simp
qed

lemma rot90_check_other:
  "\<not> (\<exists>d0 d1. dims = [d0, d1]) \<Longrightarrow>
   rot90_invalid r dims \<and> rot90_check r dims = Inl InvalidArgument"
  by (simp add: rot90_invalid_def rot90_check_def split: list.splits)

lemma rot90_check_iff:
  assumes "r < 2 ^ 62"
  shows "rot90_check r dims = Inl InvalidArgument \<longleftrightarrow> rot90_invalid r dims"
    and "is_ok (rot90_check r dims) \<longleftrightarrow> \<not> rot90_invalid r dims"
proof -
  have "(rot90_check r dims = Inl InvalidArgument \<longleftrightarrow> rot90_invalid r dims) \<and>
        (is_ok (rot90_check r dims) \<longleftrightarrow> \<not> rot90_invalid r dims)"
  proof (cases "\<exists>d0 d1. dims = [d0, d1]")
    case True
    then obtain d0 d1 where "dims = [d0, d1]" by blast
    then show ?thesis using rot90_check_pair[OF assms, of d0 d1] by (simp add: is_ok_def)
  next
    case False
    then show ?thesis using rot90_check_other[OF False, of r] by (simp add: is_ok_def)
  qed
  then show "rot90_check r dims = Inl InvalidArgument \<longleftrightarrow> rot90_invalid r dims"
    and "is_ok (rot90_check r dims) \<longleftrightarrow> \<not> rot90_invalid r dims" by simp_all
qed

lemma swap_at_length [simp]: "length (swap_at i j xs) = length xs"
  by (simp add: swap_at_def)

lemma swap_at_nth:
  "i < length xs \<Longrightarrow> j < length xs \<Longrightarrow> k < length xs \<Longrightarrow>
   swap_at i j xs ! k = xs ! (if k = i then j else if k = j then i else k)"
  by (simp add: swap_at_def nth_list_update)

lemma swap_at_swap:
  assumes "i < length xs" "j < length xs"
  shows "swap_at i j (swap_at i j xs) = xs"
proof (rule nth_equalityI)
  show "length (swap_at i j (swap_at i j xs)) = length xs" by simp
next
  fix k assume "k < length (swap_at i j (swap_at i j xs))"
  then have k: "k < length xs" by simp
  show "swap_at i j (swap_at i j xs) ! k = xs ! k"
    using assms k by (simp add: swap_at_nth)
qed

lemma swap_coords:
  assumes c: "c \<in> set (coords ns)" and ij: "i < length ns" "j < length ns"
  shows "swap_at i j c \<in> set (coords (swap_at i j ns))"
proof (rule coords_intro)
  show "length (swap_at i j c) = length (swap_at i j ns)"
    using coords_length[OF c] by simp
next
  fix d assume "d < length (swap_at i j ns)"
  then have d: "d < length ns" by simp
  have lc: "length c = length ns" using coords_length[OF c] .
  let ?k = "if d = i then j else if d = j then i else d"
  have k: "?k < length ns" using d ij by simp
  show "0 \<le> swap_at i j c ! d \<and> swap_at i j c ! d < swap_at i j ns ! d"
    using coords_nth[OF c k] d ij lc by (simp add: swap_at_nth)
qed

lemma dot_swap:
  assumes len: "length c = length s" and ij: "i < length s" "j < length s"
  shows "dot c (swap_at i j s) = dot (swap_at i j c) s"
proof -
  let ?p = "\<lambda>k. if k = i then j else if k = j then i else k"
  have "dot c (swap_at i j s) = (\<Sum>k<length s. c ! k * swap_at i j s ! k)"
    using dot_sum[of c "swap_at i j s"] len by simp
  also have "\<dots> = (\<Sum>k<length s. swap_at i j c ! k * s ! k)"
    by (rule sum.reindex_bij_witness[of _ ?p ?p]) (use ij len in \<open>auto simp: swap_at_nth\<close>)
  also have "\<dots> = dot (swap_at i j c) s"
    using dot_sum[of "swap_at i j c" s] len by simp
  finally show ?thesis .
qed

lemma tget_transposed:
  "length c = length (strides t) \<Longrightarrow> i < length (strides t) \<Longrightarrow> j < length (strides t) \<Longrightarrow>
   tget m (transposed t i j) c = tget m t (swap_at i j c)"
  by (simp add: tget_def transposed_def dot_swap)

lemma valid_transposed:
  assumes v: "valid m t" and ij: "i < length (sizes t)" "j < length (sizes t)"
  shows "valid m (transposed t i j)"
proof -
  have lst: "length (strides t) = length (sizes t)" using v by (simp add: valid_def)
  have "is_ok (tget m (transposed t i j) c)" if c: "c \<in> set (coords (swap_at i j (sizes t)))" for c
  proof -
    have "swap_at i j c \<in> set (coords (swap_at i j (swap_at i j (sizes t))))"
      using swap_coords[OF c] ij by simp
    then have "swap_at i j c \<in> set (coords (sizes t))"
      using ij by (simp add: swap_at_swap)
    then have "is_ok (tget m t (swap_at i j c))"
      using v by (simp add: valid_def list_all_iff)
    then show ?thesis
      using coords_length[OF c] ij lst by (simp add: tget_transposed)
  qed
  moreover have "list_all (\<lambda>n. 0 \<le> n) (swap_at i j (sizes t))"
    using v ij set_swap[OF ij] by (simp add: valid_def list_all_iff swap_at_def)
  ultimately show ?thesis
    using v by (simp add: valid_def list_all_iff transposed_def)
qed

lemma transpose_ok:
  "- dim t \<le> d0 \<Longrightarrow> d0 < dim t \<Longrightarrow> - dim t \<le> d1 \<Longrightarrow> d1 < dim t \<Longrightarrow>
   transpose_inplace t d0 d1 = Inr (transposed t (wrapped d0 (dim t)) (wrapped d1 (dim t)))"
  by (simp add: transpose_inplace_def maybe_wrap_dim_ok transposed_def)

lemma bitset_single:
  assumes "- r \<le> d" "d < r" "r \<le> 64"
  shows "dim_list_to_bitset [d] r = Inr (bits1 (wrapped d r))"
proof -
  have "wrapped d r < 64" using wrapped_less[OF assms(1,2)] assms(3) by simp
  then show ?thesis
    using assms by (simp add: dim_list_to_bitset_def dim_bitset_size_def maybe_wrap_dim_ok bits1_def)
qed

lemma bitset_pair:
  assumes "- r \<le> d0" "d0 < r" "- r \<le> d1" "d1 < r" "r \<le> 64"
    "wrapped d0 r \<noteq> wrapped d1 r"
  shows "dim_list_to_bitset [d0, d1] r = Inr (bits2 (wrapped d0 r) (wrapped d1 r))"
proof -
  have "wrapped d0 r < 64" "wrapped d1 r < 64"
    using wrapped_less[OF assms(1,2)] wrapped_less[OF assms(3,4)] assms(5) by simp_all
  then show ?thesis
    using assms
    by (simp add: dim_list_to_bitset_def dim_bitset_size_def maybe_wrap_dim_ok bits2_def
        nth_list_update)
qed

lemma bitset_too_many: "64 < r \<Longrightarrow> dim_list_to_bitset dims r = Inl InvalidArgument"
  by (simp add: dim_list_to_bitset_def dim_bitset_size_def)

lemma bits1_nth: "j < 64 \<Longrightarrow> k < 64 \<Longrightarrow> bits1 j ! k \<longleftrightarrow> k = j"
  by (auto simp: bits1_def nth_list_update)

lemma bits2_nth: "i < 64 \<Longrightarrow> j < 64 \<Longrightarrow> k < 64 \<Longrightarrow> bits2 i j ! k \<longleftrightarrow> k = i \<or> k = j"
  by (auto simp: bits2_def nth_list_update)

lemma bits_length [simp]: "length (bits1 j) = 64" "length (bits2 i j) = 64"
  by (simp_all add: bits1_def bits2_def)

lemma flip_sem:
  fixes mem :: "'a heap"
  assumes v: "valid mem t" and bs: "dim_list_to_bitset dims (dim t) = Inr b"
    and ne: "(\<exists>d<length (sizes t). b ! d) \<or> numel t = 0"
  shows "\<exists>m' out. flip mem t dims = Inr (m', out) \<and> sizes out = sizes t \<and>
           strides out = stride_contiguous_v (sizes t) \<and> itemsize out = itemsize t \<and>
           valid m' out \<and> take (length mem) m' = mem \<and> length mem \<le> buf out \<and>
           buf out < length m' \<and>
           (\<forall>c\<in>set (coords (sizes t)). tget m' out c = tget mem t (flipc b (sizes t) c))"
proof -
  define fs where "fs = flip_dims_of b (length (sizes t))"
  define M where "M = mem @ map (idx_table t) fs @ [Elems (flip_cells mem t b)]"
  define out where "out = flip_out mem t fs"
  have lb: "length (sizes t) \<le> length b"
    using bitset_props[OF bs] by (simp add: dim_def)
  have ne': "fs \<noteq> [] \<or> numel t = 0"
  proof (cases "numel t = 0")
    case True
    then show ?thesis by simp
  next
    case False
    then obtain d where "d < length (sizes t)" "b ! d" using ne by blast
    then have "d \<in> set fs" by (simp add: fs_def flip_dims_set)
    then show ?thesis by force
  qed
  have 1: "flip mem t dims = Inr (M, out)"
    unfolding flip_def M_def out_def by (rule flip_cpu_ok(1)[OF v bs fs_def ne'])
  have 2: "valid M out" unfolding M_def out_def by (rule flip_out_valid[OF v lb])
  have 3: "\<forall>c\<in>set (coords (sizes t)). tget M out c = tget mem t (flipc b (sizes t) c)"
    unfolding M_def out_def by (intro ballI flip_out_get[OF v lb])
  have 4: "sizes out = sizes t" "strides out = stride_contiguous_v (sizes t)"
    "itemsize out = itemsize t" "length mem \<le> buf out" "buf out < length M"
    "take (length mem) M = mem"
    by (simp_all add: out_def M_def flip_out_def)
  show ?thesis using 1 2 3 4 by blast
qed

lemma rot90_unfold:
  "rot90_check (dim t) dims = Inr (d0, d1) \<Longrightarrow>
   rot90 mem t k dims =
     (if k mod 4 = 1 then
        ebind (flip mem t [d1]) (\<lambda>(m, x). ebind (transpose_inplace x d0 d1) (\<lambda>r. Inr (m, r)))
      else if k mod 4 = 2 then flip mem t dims
      else if k mod 4 = 3 then
        ebind (flip mem t [d0]) (\<lambda>(m, x). ebind (transpose_inplace x d0 d1) (\<lambda>r. Inr (m, r)))
      else clone mem t Contiguous)"
  by (simp add: rot90_def norm_k Let_def)

lemma rot90_mod: "rot90 mem t k dims = rot90 mem t (k mod 4) dims"
  by (simp add: rot90_def norm_k)

lemma clone_ok:
  assumes "valid mem t"
  shows "\<exists>vs. clone mem t Contiguous =
           Inr (mem @ [Elems (map Some vs)],
                \<lparr>buf = length mem, storage_offset = 0, sizes = sizes t,
                 strides = stride_contiguous_v (sizes t), itemsize = itemsize t\<rparr>) \<and>
           map Inr vs = elements mem t"
proof -
  have "\<exists>vs. mapM (tget mem t) (coords (sizes t)) = Inr vs \<and>
          map Inr vs = map (tget mem t) (coords (sizes t))"
    using assms by (intro mapM_ok) (simp add: valid_def list_all_iff)
  then show ?thesis by (auto simp: clone_def elements_def)
qed

lemma flip_too_many: "64 < dim t \<Longrightarrow> flip mem t dims = Inl InvalidArgument"
  by (simp add: flip_def flip_cpu_def bitset_too_many)

lemma valid_pair:
  assumes "\<not> rot90_invalid r [d0, d1]"
  shows "- r \<le> d0" "d0 < r" "- r \<le> d1" "d1 < r" "2 \<le> r"
    "wrapped d0 r \<noteq> wrapped d1 r"
proof -
  have a: "- r \<le> d0 \<and> d0 < r \<and> - r \<le> d1 \<and> d1 < r \<and> 2 \<le> r \<and> d0 \<noteq> d1 \<and> \<bar>d0 - d1\<bar> \<noteq> r"
    using assms unfolding rot90_invalid_def by simp
  then show "- r \<le> d0" "d0 < r" "- r \<le> d1" "d1 < r" "2 \<le> r" by simp_all
  show "wrapped d0 r \<noteq> wrapped d1 r" using a by (intro wrapped_neq) simp_all
qed

lemma wrapped_lt: "- dim t \<le> d \<Longrightarrow> d < dim t \<Longrightarrow> wrapped d (dim t) < length (sizes t)"
  using wrapped_less[of "dim t" d] by (simp add: dim_def)

lemma flip_one_axis:
  fixes mem :: "'a heap"
  assumes v: "valid mem t" and d: "- dim t \<le> d" "d < dim t" and r: "dim t \<le> 64"
  shows "\<exists>m' out. flip mem t [d] = Inr (m', out) \<and> sizes out = sizes t \<and>
           strides out = stride_contiguous_v (sizes t) \<and> itemsize out = itemsize t \<and>
           valid m' out \<and> take (length mem) m' = mem \<and> length mem \<le> buf out \<and>
           buf out < length m' \<and>
           (\<forall>c\<in>set (coords (sizes t)).
              tget m' out c = tget mem t (flipc (bits1 (wrapped d (dim t))) (sizes t) c))"
proof (rule flip_sem[OF v bitset_single[OF d r]])
  let ?j = "wrapped d (dim t)"
  have j: "?j < length (sizes t)" by (rule wrapped_lt[OF d])
  then have "?j < 64" using r by (simp add: dim_def)
  then have "bits1 ?j ! ?j" by (simp add: bits1_nth)
  then show "(\<exists>d<length (sizes t). bits1 ?j ! d) \<or> numel t = 0" using j by blast
qed

lemma flip_two_axes:
  fixes mem :: "'a heap"
  assumes v: "valid mem t" and p: "\<not> rot90_invalid (dim t) [d0, d1]" and r: "dim t \<le> 64"
  shows "\<exists>m' out. flip mem t [d0, d1] = Inr (m', out) \<and> sizes out = sizes t \<and>
           strides out = stride_contiguous_v (sizes t) \<and> itemsize out = itemsize t \<and>
           valid m' out \<and> take (length mem) m' = mem \<and> length mem \<le> buf out \<and>
           buf out < length m' \<and>
           (\<forall>c\<in>set (coords (sizes t)).
              tget m' out c =
              tget mem t (flipc (bits2 (wrapped d0 (dim t)) (wrapped d1 (dim t))) (sizes t) c))"
proof (rule flip_sem[OF v bitset_pair[OF valid_pair(1-4)[OF p] r valid_pair(6)[OF p]]])
  let ?i = "wrapped d0 (dim t)" and ?j = "wrapped d1 (dim t)"
  have i: "?i < length (sizes t)" by (rule wrapped_lt[OF valid_pair(1,2)[OF p]])
  have j: "?j < length (sizes t)" by (rule wrapped_lt[OF valid_pair(3,4)[OF p]])
  have "?i < 64" "?j < 64" using i j r by (simp_all add: dim_def)
  then have "bits2 ?i ?j ! ?i" by (simp add: bits2_nth)
  then show "(\<exists>d<length (sizes t). bits2 ?i ?j ! d) \<or> numel t = 0" using i by blast
qed

lemma dim_transposed [simp]: "dim (transposed t i j) = dim t"
  by (simp add: dim_def transposed_def)

lemma sizes_transposed [simp]: "sizes (transposed t i j) = swap_at i j (sizes t)"
  by (simp add: transposed_def)

lemma even_mod4: "even k \<longleftrightarrow> k mod 4 = 0 \<or> k mod 4 = 2" for k :: int
  by presburger

lemma mod4_cases:
  fixes k :: int
  obtains "k mod 4 = 0" | "k mod 4 = 1" | "k mod 4 = 2" | "k mod 4 = 3"
proof -
  have "0 \<le> k mod 4" "k mod 4 < 4" by simp_all
  then have "k mod 4 = 0 \<or> k mod 4 = 1 \<or> k mod 4 = 2 \<or> k mod 4 = 3" by linarith
  then show ?thesis
  proof (elim disjE)
    assume "k mod 4 = 0" then show ?thesis by (rule that(1))
  next
    assume "k mod 4 = 1" then show ?thesis by (rule that(2))
  next
    assume "k mod 4 = 2" then show ?thesis by (rule that(3))
  next
    assume "k mod 4 = 3" then show ?thesis by (rule that(4))
  qed
qed

lemma rot90_flip_transpose:
  fixes mem :: "'a heap"
  assumes v: "valid mem t" and p: "\<not> rot90_invalid (dim t) [d0, d1]" and r: "dim t \<le> 64"
    and d: "d = d0 \<or> d = d1"
  shows "\<exists>m' out. flip mem t [d] = Inr (m', out) \<and>
           ebind (flip mem t [d]) (\<lambda>(m, x). ebind (transpose_inplace x d0 d1) (\<lambda>r. Inr (m, r))) =
             Inr (m', transposed out (wrapped d0 (dim t)) (wrapped d1 (dim t))) \<and>
           sizes out = sizes t \<and> strides out = stride_contiguous_v (sizes t) \<and>
           valid m' out \<and> take (length mem) m' = mem \<and>
           (\<forall>c\<in>set (coords (sizes t)).
              tget m' out c = tget mem t (flipc (bits1 (wrapped d (dim t))) (sizes t) c))"
proof -
  note vp = valid_pair[OF p]
  have dr: "- dim t \<le> d" "d < dim t" using d vp by auto
  obtain m' out where f: "flip mem t [d] = Inr (m', out)" "sizes out = sizes t"
    "strides out = stride_contiguous_v (sizes t)" "valid m' out" "take (length mem) m' = mem"
    "\<forall>c\<in>set (coords (sizes t)).
        tget m' out c = tget mem t (flipc (bits1 (wrapped d (dim t))) (sizes t) c)"
    using flip_one_axis[OF v dr r] by blast
  have dm: "dim out = dim t" using f(2) by (simp add: dim_def)
  have "transpose_inplace out d0 d1 =
        Inr (transposed out (wrapped d0 (dim t)) (wrapped d1 (dim t)))"
    using transpose_ok[of out d0 d1] vp dm by simp
  then show ?thesis using f by simp
qed

lemma rot90_ok:
  fixes mem :: "'a heap"
  assumes v: "valid mem t" and p: "\<not> rot90_invalid (dim t) [d0, d1]"
    and r2: "dim t < 2 ^ 62" and r: "dim t \<le> 64 \<or> k mod 4 = 0"
  shows "\<exists>m' out. rot90 mem t k [d0, d1] = Inr (m', out) \<and>
           sizes out = (if even k then sizes t
                        else swap_at (wrapped d0 (dim t)) (wrapped d1 (dim t)) (sizes t))"
proof -
  have chk: "rot90_check (dim t) [d0, d1] = Inr (d0, d1)"
    using rot90_check_pair[OF r2, of d0 d1] p by simp
  note u = rot90_unfold[OF chk, of mem k]
  show ?thesis
  proof (cases k rule: mod4_cases)
    case 1
    then show ?thesis using clone_ok[OF v] u by (auto simp: even_mod4)
  next
    case 2
    then have r64: "dim t \<le> 64" using r by simp
    obtain m' out where "ebind (flip mem t [d1]) (\<lambda>(m, x). ebind (transpose_inplace x d0 d1) (\<lambda>r. Inr (m, r))) =
             Inr (m', transposed out (wrapped d0 (dim t)) (wrapped d1 (dim t)))" "sizes out = sizes t"
      using rot90_flip_transpose[OF v p r64, of d1] by blast
    then show ?thesis using u 2 by (simp add: even_mod4)
  next
    case 3
    then have r64: "dim t \<le> 64" using r by simp
    obtain m' out where "flip mem t [d0, d1] = Inr (m', out)" "sizes out = sizes t"
      using flip_two_axes[OF v p r64] by blast
    then show ?thesis using u 3 by (simp add: even_mod4)
  next
    case 4
    then have r64: "dim t \<le> 64" using r by simp
    obtain m' out where "ebind (flip mem t [d0]) (\<lambda>(m, x). ebind (transpose_inplace x d0 d1) (\<lambda>r. Inr (m, r))) =
             Inr (m', transposed out (wrapped d0 (dim t)) (wrapped d1 (dim t)))" "sizes out = sizes t"
      using rot90_flip_transpose[OF v p r64, of d0] by blast
    then show ?thesis using u 4 by (simp add: even_mod4)
  qed
qed

lemma rot90_big:
  assumes p: "\<not> rot90_invalid (dim t) [d0, d1]" and r2: "dim t < 2 ^ 62"
    and r: "64 < dim t" and k: "k mod 4 \<noteq> 0"
  shows "rot90 mem t k [d0, d1] = Inl InvalidArgument"
proof -
  have chk: "rot90_check (dim t) [d0, d1] = Inr (d0, d1)"
    using rot90_check_pair[OF r2, of d0 d1] p by simp
  show ?thesis
    using k by (cases k rule: mod4_cases)
      (simp_all add: rot90_unfold[OF chk] flip_too_many[OF r])
qed

lemma rot90_invalid_fails:
  assumes "rot90_invalid (dim t) dims" "dim t < 2 ^ 62"
  shows "rot90_check (dim t) dims = Inl InvalidArgument" "rot90 mem t k dims = Inl InvalidArgument"
proof -
  show c: "rot90_check (dim t) dims = Inl InvalidArgument"
    using rot90_check_iff(1)[OF assms(2)] assms(1) by simp
  show "rot90 mem t k dims = Inl InvalidArgument" by (simp add: rot90_def c)
qed

lemma not_invalid_pair: "\<not> rot90_invalid r dims \<Longrightarrow> \<exists>d0 d1. dims = [d0, d1]"
  using rot90_check_other[of dims r] by blast

lemma prod_list_swap:
  "i < length ns \<Longrightarrow> j < length ns \<Longrightarrow> prod_list ns = 0 \<Longrightarrow>
   prod_list (swap_at i j ns) = (0::int)"
  using set_swap[of i ns j] by (simp add: prod_list_zero_iff swap_at_def)

lemma flip_empty:
  fixes mem :: "'a heap"
  assumes "valid mem t" "numel t = 0" "is_ok (dim_list_to_bitset dims (dim t))"
  shows "result_sizes (flip mem t dims) = Inr (sizes t)"
proof -
  obtain b where b: "dim_list_to_bitset dims (dim t) = Inr b"
    using assms(3) by (cases "dim_list_to_bitset dims (dim t)") (auto simp: is_ok_def)
  have "\<exists>m' out. flip mem t dims = Inr (m', out) \<and> sizes out = sizes t \<and>
           strides out = stride_contiguous_v (sizes t) \<and> itemsize out = itemsize t \<and>
           valid m' out \<and> take (length mem) m' = mem \<and> length mem \<le> buf out \<and>
           buf out < length m' \<and>
           (\<forall>c\<in>set (coords (sizes t)). tget m' out c = tget mem t (flipc b (sizes t) c))"
    by (rule flip_sem[OF assms(1) b]) (simp add: assms(2))
  then obtain m' out where "flip mem t dims = Inr (m', out)" "sizes out = sizes t"
    by (elim exE conjE)
  then show ?thesis by (simp add: result_sizes_def)
qed

lemma roll_empty:
  assumes "valid mem t" "numel t = 0"
  shows "roll_cpu rc mem t [s] [d] = clone mem t Preserve"
    "result_sizes (roll_cpu rc mem t [s] [d]) = Inr (sizes t)"
  using assms by (simp_all add: roll_cpu_def clone_def valid_def result_sizes_def)

lemma rot90_empty:
  fixes mem :: "'a heap"
  assumes v: "valid mem t" and p: "\<not> rot90_invalid (dim t) [d0, d1]" and r: "dim t \<le> 64"
  shows "result_sizes (rot90 mem t k [d0, d1]) =
         Inr (if even k then sizes t
              else swap_at (wrapped d0 (dim t)) (wrapped d1 (dim t)) (sizes t))"
proof -
  have r2: "dim t < 2 ^ 62" using r by simp
  have "\<exists>m' out. rot90 mem t k [d0, d1] = Inr (m', out) \<and>
           sizes out = (if even k then sizes t
                        else swap_at (wrapped d0 (dim t)) (wrapped d1 (dim t)) (sizes t))"
    by (rule rot90_ok[OF v p r2]) (simp add: r)
  then obtain m' out where "rot90 mem t k [d0, d1] = Inr (m', out)"
    "sizes out = (if even k then sizes t
                        else swap_at (wrapped d0 (dim t)) (wrapped d1 (dim t)) (sizes t))"
    by (elim exE conjE)
  then show ?thesis by (simp add: result_sizes_def)
qed

lemma rot_coords:
  assumes c: "c \<in> set (coords ns)" and ij: "i < length ns" "j < length ns" "i \<noteq> j"
    and r: "length ns \<le> 64"
  shows "flipc (bits1 j) ns (swap_at i j (flipc (bits1 j) (swap_at i j ns) (swap_at i j c))) =
         flipc (bits2 i j) ns c"
proof (rule nth_equalityI)
  have lc: "length c = length ns" using coords_length[OF c] .
  show "length (flipc (bits1 j) ns (swap_at i j (flipc (bits1 j) (swap_at i j ns) (swap_at i j c)))) =
        length (flipc (bits2 i j) ns c)"
    using lc r by simp
next
  fix k
  assume "k < length (flipc (bits1 j) ns (swap_at i j (flipc (bits1 j) (swap_at i j ns) (swap_at i j c))))"
  have lc: "length c = length ns" using coords_length[OF c] .
  then have k: "k < length ns" using \<open>k < length _\<close> r by simp
  have b: "i < 64" "j < 64" "k < 64" using ij k r by simp_all
  let ?c1 = "flipc (bits1 j) (swap_at i j ns) (swap_at i j c)"
  have l1: "length ?c1 = length ns" using lc r by simp
  have c1: "?c1 ! m = (if m = j then swap_at i j ns ! m - 1 - swap_at i j c ! m
                        else swap_at i j c ! m)" if "m < length ns" for m
    using that lc r ij by (simp add: flipc_nth bits1_nth)
  have "flipc (bits1 j) ns (swap_at i j ?c1) ! k =
        (if k = j then ns ! k - 1 - swap_at i j ?c1 ! k else swap_at i j ?c1 ! k)"
    using k l1 r b by (simp add: flipc_nth bits1_nth)
  also have "\<dots> = (if k = i \<or> k = j then ns ! k - 1 - c ! k else c ! k)"
    using k ij lc l1 by (simp add: swap_at_nth c1)
  also have "\<dots> = flipc (bits2 i j) ns c ! k"
    using k lc r b by (simp add: flipc_nth bits2_nth)
  finally show "flipc (bits1 j) ns (swap_at i j ?c1) ! k = flipc (bits2 i j) ns c ! k" .
qed

lemma rot90_twice:
  fixes mem :: "'a heap"
  assumes v: "valid mem X" and p: "\<not> rot90_invalid (dim X) [d0, d1]" and r: "dim X \<le> 64"
  shows "result_eq (ebind (rot90 mem X 1 [d0, d1]) (\<lambda>(m, Y). rot90 m Y 1 [d0, d1]))
           (rot90 mem X 2 [d0, d1])"
proof -
  let ?ns = "sizes X"
  let ?i = "wrapped d0 (dim X)" and ?j = "wrapped d1 (dim X)"
  note vp = valid_pair[OF p]
  have r2: "dim X < 2 ^ 62" using r by simp
  have i: "?i < length ?ns" by (rule wrapped_lt[OF vp(1,2)])
  have j: "?j < length ?ns" by (rule wrapped_lt[OF vp(3,4)])
  have ij: "?i \<noteq> ?j" by (rule vp(6))
  have r64: "length ?ns \<le> 64" using r by (simp add: dim_def)
  have chk: "rot90_check (dim X) [d0, d1] = Inr (d0, d1)"
    using rot90_check_pair[OF r2, of d0 d1] p by simp
  \<comment> \<open>first rotation\<close>
  have "\<exists>m' out. flip mem X [d1] = Inr (m', out) \<and>
           ebind (flip mem X [d1]) (\<lambda>(m, x). ebind (transpose_inplace x d0 d1) (\<lambda>r. Inr (m, r))) =
             Inr (m', transposed out ?i ?j) \<and>
           sizes out = ?ns \<and> strides out = stride_contiguous_v ?ns \<and>
           valid m' out \<and> take (length mem) m' = mem \<and>
           (\<forall>c\<in>set (coords ?ns). tget m' out c = tget mem X (flipc (bits1 ?j) ?ns c))"
    by (rule rot90_flip_transpose[OF v p r]) simp
  then obtain m1 F where F:
    "ebind (flip mem X [d1]) (\<lambda>(m, x). ebind (transpose_inplace x d0 d1) (\<lambda>r. Inr (m, r))) =
       Inr (m1, transposed F ?i ?j)"
    "sizes F = ?ns" "strides F = stride_contiguous_v ?ns" "valid m1 F"
    "\<forall>c\<in>set (coords ?ns). tget m1 F c = tget mem X (flipc (bits1 ?j) ?ns c)"
    by (elim exE conjE)
  let ?Y = "transposed F ?i ?j"
  have rot1: "rot90 mem X 1 [d0, d1] = Inr (m1, ?Y)"
    using F(1) by (simp add: rot90_unfold[OF chk])
  have vY: "valid m1 ?Y" using valid_transposed[OF F(4), of ?i ?j] i j F(2) by simp
  have dY: "dim ?Y = dim X" using F(2) by (simp add: dim_def)
  have sY: "sizes ?Y = swap_at ?i ?j ?ns" using F(2) by simp
  have pY: "\<not> rot90_invalid (dim ?Y) [d0, d1]" using p dY by simp
  have rY: "dim ?Y \<le> 64" using r dY by simp
  have chkY: "rot90_check (dim ?Y) [d0, d1] = Inr (d0, d1)" using chk dY by simp
  \<comment> \<open>second rotation\<close>
  have "\<exists>m' out. flip m1 ?Y [d1] = Inr (m', out) \<and>
           ebind (flip m1 ?Y [d1]) (\<lambda>(m, x). ebind (transpose_inplace x d0 d1) (\<lambda>r. Inr (m, r))) =
             Inr (m', transposed out (wrapped d0 (dim ?Y)) (wrapped d1 (dim ?Y))) \<and>
           sizes out = sizes ?Y \<and> strides out = stride_contiguous_v (sizes ?Y) \<and>
           valid m' out \<and> take (length m1) m' = m1 \<and>
           (\<forall>c\<in>set (coords (sizes ?Y)).
              tget m' out c = tget m1 ?Y (flipc (bits1 (wrapped d1 (dim ?Y))) (sizes ?Y) c))"
    by (rule rot90_flip_transpose[OF vY pY rY]) simp
  then obtain m2 G where G:
    "ebind (flip m1 ?Y [d1]) (\<lambda>(m, x). ebind (transpose_inplace x d0 d1) (\<lambda>r. Inr (m, r))) =
       Inr (m2, transposed G ?i ?j)"
    "sizes G = swap_at ?i ?j ?ns" "strides G = stride_contiguous_v (swap_at ?i ?j ?ns)"
    "\<forall>c\<in>set (coords (swap_at ?i ?j ?ns)).
        tget m2 G c = tget m1 ?Y (flipc (bits1 ?j) (swap_at ?i ?j ?ns) c)"
    unfolding dY sY by (elim exE conjE)
  let ?Z = "transposed G ?i ?j"
  have rot2: "rot90 m1 ?Y 1 [d0, d1] = Inr (m2, ?Z)"
    using G(1) by (simp add: rot90_unfold[OF chkY])
  \<comment> \<open>flip of both axes\<close>
  have "\<exists>m' out. flip mem X [d0, d1] = Inr (m', out) \<and> sizes out = ?ns \<and>
           strides out = stride_contiguous_v ?ns \<and> itemsize out = itemsize X \<and>
           valid m' out \<and> take (length mem) m' = mem \<and> length mem \<le> buf out \<and>
           buf out < length m' \<and>
           (\<forall>c\<in>set (coords ?ns). tget m' out c = tget mem X (flipc (bits2 ?i ?j) ?ns c))"
    by (rule flip_two_axes[OF v p r])
  then obtain m3 W where W: "flip mem X [d0, d1] = Inr (m3, W)" "sizes W = ?ns"
    "\<forall>c\<in>set (coords ?ns). tget m3 W c = tget mem X (flipc (bits2 ?i ?j) ?ns c)"
    by (elim exE conjE)
  have rot3: "rot90 mem X 2 [d0, d1] = Inr (m3, W)"
    using W(1) by (simp add: rot90_unfold[OF chk])
  \<comment> \<open>element by element\<close>
  have sZ: "sizes ?Z = ?ns" using G(2) i j by (simp add: swap_at_swap)
  have el: "tget m2 ?Z c = tget m3 W c" if c: "c \<in> set (coords ?ns)" for c
  proof -
    have lc: "length c = length ?ns" using coords_length[OF c] .
    let ?sc = "swap_at ?i ?j c"
    let ?c1 = "flipc (bits1 ?j) (swap_at ?i ?j ?ns) ?sc"
    have sc: "?sc \<in> set (coords (swap_at ?i ?j ?ns))" by (rule swap_coords[OF c i j])
    have c1: "?c1 \<in> set (coords (swap_at ?i ?j ?ns))"
      using flipc_coords[OF sc, of "bits1 ?j"] r64 by simp
    have l1: "length ?c1 = length ?ns" using coords_length[OF c1] by simp
    have s1: "swap_at ?i ?j ?c1 \<in> set (coords ?ns)"
      using swap_coords[OF c1, of ?i ?j] i j by (simp add: swap_at_swap)
    have "tget m2 ?Z c = tget m2 G ?sc"
      using lc i j G(3) by (intro tget_transposed) simp_all
    also have "\<dots> = tget m1 ?Y ?c1" using G(4) sc by blast
    also have "\<dots> = tget m1 F (swap_at ?i ?j ?c1)"
      using l1 i j F(3) by (intro tget_transposed) simp_all
    also have "\<dots> = tget mem X (flipc (bits1 ?j) ?ns (swap_at ?i ?j ?c1))"
      using F(5) s1 by blast
    also have "\<dots> = tget mem X (flipc (bits2 ?i ?j) ?ns c)"
      by (simp only: rot_coords[OF c i j ij r64])
    also have "\<dots> = tget m3 W c" using W(3) c by simp
    finally show ?thesis .
  qed
  have "tensor_eq m2 ?Z m3 W"
    unfolding tensor_eq_def elements_def using sZ W(2) el by simp
  then show ?thesis
    by (simp add: rot1 rot2 rot3 result_eq_def)
qed

lemma rot90_twice_big:
  assumes p: "\<not> rot90_invalid (dim X) [d0, d1]" and r2: "dim X < 2 ^ 62" and r: "64 < dim X"
  shows "result_eq (ebind (rot90 mem X 1 [d0, d1]) (\<lambda>(m, Y). rot90 m Y 1 [d0, d1]))
           (rot90 mem X 2 [d0, d1])"
proof -
  have "rot90 mem X 1 [d0, d1] = Inl InvalidArgument"
    by (rule rot90_big[OF p r2 r]) simp
  moreover have "rot90 mem X 2 [d0, d1] = Inl InvalidArgument"
    by (rule rot90_big[OF p r2 r]) simp
  ultimately show ?thesis by (simp add: result_eq_def)
qed

lemma contiguous_from_snoc:
  "length xs = length ys \<Longrightarrow>
   contiguous_from (xs @ [n]) (ys @ [s]) z \<longleftrightarrow>
     contiguous_from xs ys z \<and> (n = 1 \<or> s = z * prod_list xs)"
proof (induction xs ys arbitrary: z rule: list_induct2)
  case Nil
  then show ?case by auto
next
  case (Cons x xs y ys)
  then show ?case by (auto simp: algebra_simps)
qed

lemma sc_contiguous_pos:
  "list_all (\<lambda>n. 0 < n) ns \<Longrightarrow> contiguous_from (rev ns) (rev (stride_contiguous_v ns)) 1"
proof (induction ns)
  case Nil
  then show ?case by simp
next
  case (Cons n ns)
  then have "list_all (\<lambda>n. 0 < n) ns" by simp
  then show ?case using Cons by (simp add: sc_Cons contiguous_from_snoc)
qed

lemma sc_contiguous:
  assumes "list_all (\<lambda>n. 0 \<le> n) (sizes out)" "strides out = stride_contiguous_v (sizes out)"
  shows "is_contiguous out"
proof (cases "numel out = 0")
  case True
  then show ?thesis using assms by (simp add: is_contiguous_def)
next
  case False
  then have "list_all (\<lambda>n. 0 < n) (sizes out)"
    using pos_sizes[OF assms(1)] by (simp add: numel_def)
  then show ?thesis using assms sc_contiguous_pos by (simp add: is_contiguous_def)
qed

lemma store_keeps:
  "store m bf k x = Inr m' \<Longrightarrow> n \<le> bf \<Longrightarrow> take n m' = take n m \<and> length m' = length m"
  by (auto simp: store_def split: if_splits buffer.splits)

lemma flip_old_result:
  fixes mem :: "'a heap"
  assumes v: "valid mem t" and f: "flip_old_cpu mem t dims = Inr (m', out)"
  shows "fresh_contiguous mem t m' out"
proof -
  let ?out = "\<lparr>buf = length mem, storage_offset = 0, sizes = sizes t,
               strides = stride_contiguous_v (sizes t), itemsize = itemsize t\<rparr>"
  let ?mem1 = "mem @ [Elems (replicate (nat (prod_list (sizes t))) None)] :: 'a heap"
  obtain b where k: "flip_old_cpu_kernel (stride_contiguous_v (sizes t)) b t ?out ?mem1 = Inr m'"
    and o: "out = ?out"
    using f by (auto simp: flip_old_cpu_def empty_like_def at_empty_def ebind_eq_Inr)
  have "take (length mem) m' = take (length mem) ?mem1 \<and> length m' = length ?mem1"
    by (rule foldM_inv[OF k[unfolded flip_old_cpu_kernel_def],
          where I = "\<lambda>m. take (length mem) m = take (length mem) ?mem1 \<and> length m = length ?mem1"])
       (auto simp: ebind_eq_Inr dest!: store_keeps[where n = "length mem"])
  moreover have "is_contiguous ?out"
    using v by (intro sc_contiguous) (simp_all add: valid_def)
  moreover have "buf t < length mem" using v by (simp add: valid_def)
  ultimately show ?thesis by (simp add: fresh_contiguous_def o)
qed

lemma flip_result:
  fixes mem :: "'a heap"
  assumes v: "valid mem t" and f: "flip mem t dims = Inr (m', out)"
  shows "fresh_contiguous mem t m' out"
proof -
  obtain b where bs: "dim_list_to_bitset dims (dim t) = Inr b"
    using f by (cases "dim_list_to_bitset dims (dim t)") (auto simp: flip_def flip_cpu_def)
  define fs where "fs = flip_dims_of b (length (sizes t))"
  have ne: "fs \<noteq> [] \<or> numel t = 0"
  proof (rule ccontr)
    assume "\<not> (fs \<noteq> [] \<or> numel t = 0)"
    then have "flip_cpu mem t dims = Inl OutOfBounds"
      using flip_no_tables(2)[OF v _ bs] by (simp add: fs_def)
    then show False using f by (simp add: flip_def)
  qed
  have "flip_cpu mem t dims =
        Inr (mem @ map (idx_table t) fs @ [Elems (flip_cells mem t b)], flip_out mem t fs)"
    by (rule flip_cpu_ok(1)[OF v bs fs_def ne])
  then have m: "m' = mem @ map (idx_table t) fs @ [Elems (flip_cells mem t b)]"
    and o: "out = flip_out mem t fs"
    using f by (simp_all add: flip_def)
  have "is_contiguous (flip_out mem t fs)"
    using v by (intro sc_contiguous) (simp_all add: valid_def flip_out_def)
  moreover have "buf t < length mem" using v by (simp add: valid_def)
  ultimately show ?thesis by (simp add: fresh_contiguous_def m o flip_out_def)
qed

lemma wrap_dim_Inr: "maybe_wrap_dim d r = Inr i \<Longrightarrow> int i < r"
  by (auto simp: maybe_wrap_dim_def Let_def split: if_splits)

lemma narrow_Inr:
  assumes "narrow t d a len = Inr u"
  shows "\<exists>i. maybe_wrap_dim d (dim t) = Inr i \<and> 0 \<le> a \<and> 0 \<le> len \<and> a + len \<le> sizes t ! i \<and>
           u = t\<lparr>storage_offset := storage_offset t + a * (strides t ! i),
                  sizes := (sizes t)[i := len]\<rparr>"
  using assms by (auto simp: narrow_def ebind_eq_Inr split: if_splits)

lemma cat_Inr:
  assumes "cat mem [t0, t1] d = Inr (m', out)"
  shows "\<exists>i vs. maybe_wrap_dim d (dim t0) = Inr i \<and>
           m' = mem @ [Elems (map Some vs)] \<and>
           out = \<lparr>buf = length mem, storage_offset = 0,
                  sizes = (sizes t0)[i := sizes t0 ! i + sizes t1 ! i],
                  strides = stride_contiguous_v ((sizes t0)[i := sizes t0 ! i + sizes t1 ! i]),
                  itemsize = itemsize t0\<rparr>"
  using assms by (auto simp: cat_def ebind_eq_Inr Let_def split: if_splits)

lemma roll_result:
  fixes mem :: "'a heap"
  assumes v: "valid mem t" and f: "roll_cpu rc mem t [s] [d] = Inr (m', out)"
  shows "fresh_contiguous mem t m' out"
proof (cases "numel t = 0")
  case True
  have bt: "buf t < length mem" and lst: "length (strides t) = length (sizes t)"
    using v by (simp_all add: valid_def)
  have "m' = mem @ [mem ! buf t]" "out = t\<lparr>buf := length mem\<rparr>"
    using f True bt by (simp_all add: roll_cpu_def clone_def)
  then show ?thesis
    using True bt lst by (simp add: fresh_contiguous_def is_contiguous_def numel_def)
next
  case False
  have bt: "buf t < length mem" and nn: "list_all (\<lambda>n. 0 \<le> n) (sizes t)"
    using v by (simp_all add: valid_def)
  obtain n a t0 t1 where n: "size_at t d = Inr n"
    and t0: "narrow t d a (n - a) = Inr t0" and t1: "narrow t d 0 a = Inr t1"
    and c: "cat mem [t0, t1] d = Inr (m', out)"
    using f False by (auto simp: roll_cpu_def ebind_eq_Inr Let_def)
  obtain i where i: "maybe_wrap_dim d (dim t) = Inr i" and ni: "n = sizes t ! i"
    using n by (auto simp: size_at_def ebind_eq_Inr)
  have il: "i < length (sizes t)" using wrap_dim_Inr[OF i] by (simp add: dim_def)
  have s0: "sizes t0 = (sizes t)[i := n - a]"
    using narrow_Inr[OF t0] i by auto
  have s1: "sizes t1 = (sizes t)[i := a]"
    using narrow_Inr[OF t1] i by auto
  have d0: "dim t0 = dim t" using s0 by (simp add: dim_def)
  obtain vs where m: "m' = mem @ [Elems (map Some vs)]"
    and o: "out = \<lparr>buf = length mem, storage_offset = 0,
                  sizes = (sizes t0)[i := sizes t0 ! i + sizes t1 ! i],
                  strides = stride_contiguous_v ((sizes t0)[i := sizes t0 ! i + sizes t1 ! i]),
                  itemsize = itemsize t0\<rparr>"
    using cat_Inr[OF c] i d0 by auto
  have sh: "(sizes t0)[i := sizes t0 ! i + sizes t1 ! i] = sizes t"
    using il ni by (simp add: s0 s1 list_update_same_conv)
  have "is_contiguous out"
    using nn by (intro sc_contiguous) (simp_all add: o sh)
  then show ?thesis
    using bt by (simp add: fresh_contiguous_def m o sh)
qed

lemma smod_norm:
  fixes x n :: int
  assumes "0 < n"
  shows "(if x smod n < 0 then x smod n + n else x smod n) = x mod n"
proof -
  have s: "x smod n = (if 0 \<le> x then x mod n else - ((- x) mod n))"
    using assms by (simp add: smod_int_alt_def sgn_if abs_if)
  have neg: "(- x) mod n = (if x mod n = 0 then 0 else n - x mod n)"
    using assms by (simp add: zmod_zminus1_eq_if)
  have m: "0 \<le> x mod n" "x mod n < n" using assms by simp_all
  show ?thesis unfolding s neg using m by (simp split: if_splits)
qed

lemma dot_update:
  "length c = length st \<Longrightarrow> i < length c \<Longrightarrow>
   dot (c[i := x]) st = dot c st + (x - c ! i) * st ! i"
proof (induction c st arbitrary: i rule: list_induct2)
  case Nil
  then show ?case by simp
next
  case (Cons a c b st)
  then show ?case by (cases i) (simp_all add: algebra_simps)
qed

lemma coords_update:
  assumes c: "c \<in> set (coords ns)" and i: "i < length ns" and x: "0 \<le> x" "x < ns ! i"
  shows "c[i := x] \<in> set (coords ns)"
proof (rule coords_intro)
  show "length (c[i := x]) = length ns" using coords_length[OF c] by simp
next
  fix d assume d: "d < length ns"
  show "0 \<le> c[i := x] ! d \<and> c[i := x] ! d < ns ! d"
    using coords_nth[OF c d] coords_length[OF c] x d i by (cases "d = i") simp_all
qed

lemma coords_widen:
  assumes c: "c \<in> set (coords (ns[i := m]))" and i: "i < length ns" and m: "m \<le> ns ! i"
  shows "c \<in> set (coords ns)"
proof (rule coords_intro)
  show "length c = length ns" using coords_length[OF c] by simp
next
  fix d assume d: "d < length ns"
  then have "0 \<le> c ! d \<and> c ! d < ns[i := m] ! d" using coords_nth[OF c, of d] by simp
  then show "0 \<le> c ! d \<and> c ! d < ns ! d" using m d i by (cases "d = i") simp_all
qed

lemma roll_parts:
  fixes mem :: "'a heap"
  assumes v: "valid mem t" and i: "maybe_wrap_dim d (dim t) = Inr i"
    and a: "0 \<le> a" "a < sizes t ! i"
  shows "\<exists>t0 t1 m' out. narrow t d a (sizes t ! i - a) = Inr t0 \<and> narrow t d 0 a = Inr t1 \<and>
           cat mem [t0, t1] d = Inr (m', out)"
proof -
  let ?ns = "sizes t" and ?n = "sizes t ! i"
  let ?t0 = "t\<lparr>storage_offset := storage_offset t + a * (strides t ! i), sizes := ?ns[i := ?n - a]\<rparr>"
  let ?t1 = "t\<lparr>storage_offset := storage_offset t + 0 * (strides t ! i), sizes := ?ns[i := a]\<rparr>"
  have il: "i < length ?ns" using wrap_dim_Inr[OF i] by (simp add: dim_def)
  have lst: "length (strides t) = length ?ns" using v by (simp add: valid_def)
  have ok: "is_ok (tget mem t c)" if "c \<in> set (coords ?ns)" for c
    using v that by (simp add: valid_def list_all_iff)
  have n0: "narrow t d a (?n - a) = Inr ?t0" using i a by (simp add: narrow_def)
  have n1: "narrow t d 0 a = Inr ?t1" using i a by (simp add: narrow_def)
  have sh: "?ns[i := (?n - a) + a] = ?ns" using il by (simp add: list_update_same_conv)
  have g: "is_ok (cat_get mem [?t0, ?t1] i c)" if c: "c \<in> set (coords ?ns)" for c
  proof -
    have lc: "length c = length ?ns" using coords_length[OF c] .
    have ci: "0 \<le> c ! i" "c ! i < ?n" using coords_nth[OF c il] by simp_all
    show ?thesis
    proof (cases "c ! i < ?n - a")
      case True
      have "c[i := c ! i + a] \<in> set (coords ?ns)"
        using True ci a by (intro coords_update[OF c il]) simp_all
      then have "is_ok (tget mem t (c[i := c ! i + a]))" by (rule ok)
      moreover have "tget mem ?t0 c = tget mem t (c[i := c ! i + a])"
        using lc lst il by (simp add: tget_def dot_update algebra_simps)
      ultimately show ?thesis using True il by simp
    next
      case False
      let ?c' = "c[i := c ! i - (?n - a)]"
      have c': "?c' \<in> set (coords ?ns)"
        using False ci a by (intro coords_update[OF c il]) simp_all
      then have "is_ok (tget mem t ?c')" by (rule ok)
      moreover have "tget mem ?t1 ?c' = tget mem t ?c'" by (simp add: tget_def)
      moreover have "?c' ! i < a" using False ci il lc by simp
      ultimately show ?thesis using False il lc by simp
    qed
  qed
  have "\<exists>vs. mapM (cat_get mem [?t0, ?t1] i) (coords ?ns) = Inr vs \<and>
          map Inr vs = map (cat_get mem [?t0, ?t1] i) (coords ?ns)"
    by (rule mapM_ok) (rule g)
  then obtain vs where vs: "mapM (cat_get mem [?t0, ?t1] i) (coords ?ns) = Inr vs" by blast
  have d0: "dim ?t0 = dim t" by (simp add: dim_def)
  have "cat mem [?t0, ?t1] d =
        Inr (mem @ [Elems (map Some vs)],
             \<lparr>buf = length mem, storage_offset = 0, sizes = ?ns,
              strides = stride_contiguous_v ?ns, itemsize = itemsize t\<rparr>)"
    using il vs by (simp add: cat_def d0 i sh Let_def)
  then show ?thesis using n0 n1 by blast
qed

text \<open>
  Single-axis \<open>roll_cpu\<close> on an array with elements is the concatenation of the sub-views
  \<open>[start, n)\<close> and \<open>[0, start)\<close>, where \<open>start\<close> is the 64-bit difference \<open>n - s\<close>
  reduced modulo \<open>n\<close> into \<open>[0, n)\<close>; both sub-views and the concatenation exist. When
  \<open>n - s\<close> is representable in 64 bits, \<open>start\<close> is \<open>(n - s) mod n\<close>.
\<close>

lemma roll_split:
  fixes mem :: "'a heap"
  assumes v: "valid mem t" and nz: "numel t \<noteq> 0" and i: "maybe_wrap_dim d (dim t) = Inr i"
    and n: "n = sizes t ! i" and st: "start = wrap64 (n - s) mod n"
  shows "0 < n" "0 \<le> start" "start < n"
    "roll_cpu rc mem t [s] [d] =
       ebind (narrow t d start (n - start)) (\<lambda>t0.
       ebind (narrow t d 0 start) (\<lambda>t1. cat mem [t0, t1] d))"
    "is_ok (narrow t d start (n - start))" "is_ok (narrow t d 0 start)"
    "is_ok (roll_cpu rc mem t [s] [d])"
    "is_int64 (n - s) \<Longrightarrow> start = (n - s) mod n"
proof -
  have il: "i < length (sizes t)" using wrap_dim_Inr[OF i] by (simp add: dim_def)
  have nn: "list_all (\<lambda>n. 0 \<le> n) (sizes t)" using v by (simp add: valid_def)
  have "list_all (\<lambda>n. 0 < n) (sizes t)"
    using pos_sizes[OF nn] nz by (simp add: numel_def)
  then show pos: "0 < n" using il n by (simp add: list_all_length)
  show s0: "0 \<le> start" and s1: "start < n" using pos st by simp_all
  have norm: "(let start = wrap64 (n - s) smod n;
                   start = (if start < 0 then start + n else start) in f start) = f start" for f :: "int \<Rightarrow> 'b"
    using smod_norm[OF pos, of "wrap64 (n - s)"] by (simp add: Let_def st)
  show eq: "roll_cpu rc mem t [s] [d] =
       ebind (narrow t d start (n - start)) (\<lambda>t0.
       ebind (narrow t d 0 start) (\<lambda>t1. cat mem [t0, t1] d))"
    using nz by (simp add: roll_cpu_def size_at_def i n[symmetric] norm)
  have "\<exists>t0 t1 m' out. narrow t d start (sizes t ! i - start) = Inr t0 \<and>
          narrow t d 0 start = Inr t1 \<and> cat mem [t0, t1] d = Inr (m', out)"
    using s0 s1 n by (intro roll_parts[OF v i]) simp_all
  then obtain t0 t1 m' out where p: "narrow t d start (n - start) = Inr t0"
    "narrow t d 0 start = Inr t1" "cat mem [t0, t1] d = Inr (m', out)"
    unfolding n by (elim exE conjE)
  show "is_ok (narrow t d start (n - start))" "is_ok (narrow t d 0 start)"
    using p by (simp_all add: is_ok_def)
  show "is_ok (roll_cpu rc mem t [s] [d])"
    unfolding eq using p by (simp add: is_ok_def)
  show "is_int64 (n - s) \<Longrightarrow> start = (n - s) mod n"
    by (simp add: st is_int64_def wrap64_id)
qed

section \<open>Concrete runs\<close>

text \<open>
  C1. The coordinate-decomposition kernel and the restride-and-gather kernel do not agree on
  every input: with an empty list of flip axes on \<open>[[1, 2, 3], [4, 5, 6]]\<close>,
  \<open>flip_old_cpu\<close> returns a copy of the input, while \<open>flip_cpu_internal\<close> builds an
  \<open>Indexer\<close> over zero offset tables and reads operand slot 2 of an operand array of
  length 2.
\<close>

theorem flip_kernels_differ_without_axes:
  "result_elements (flip_old_cpu M23 X23 []) = Inr ([2, 3], map Inr [1, 2, 3, 4, 5, 6]) \<and>
   flip_cpu_internal M23 X23 [] = Inl OutOfBounds"
  by code_simp

text \<open>
  C2. Flipping twice does not give the input back for every axis subset: with the empty
  subset, the first \<open>flip\<close> of \<open>[[1, 2, 3], [4, 5, 6]]\<close> already reads past the operand
  array, where the property asks for the input itself.
\<close>

theorem flip_twice_without_axes:
  "flip M23 X23 [] = Inl OutOfBounds \<and>
   ebind (flip M23 X23 []) (\<lambda>(m, t). flip m t []) = Inl OutOfBounds \<and>
   elements M23 X23 = map Inr [1, 2, 3, 4, 5, 6]"
  by code_simp

text \<open>
  C3. The concrete scenario of the specification on \<open>[[1, 2, 3], [4, 5, 6]]\<close>: flip along
  axis 1 gives \<open>[[3, 2, 1], [6, 5, 4]]\<close>; flip along both axes gives
  \<open>[[6, 5, 4], [3, 2, 1]]\<close>; roll by 1 along axis 1 gives \<open>[[3, 1, 2], [6, 4, 5]]\<close>; rot90
  with \<open>k = 1\<close> in the plane of axes 0 and 1 gives \<open>[[3, 6], [2, 5], [1, 4]]\<close>.
\<close>

theorem concrete_scenario:
  "result_elements (flip M23 X23 [1]) = Inr ([2, 3], map Inr [3, 2, 1, 6, 5, 4]) \<and>
   result_elements (flip M23 X23 [0, 1]) = Inr ([2, 3], map Inr [6, 5, 4, 3, 2, 1]) \<and>
   result_elements (roll_cpu no_roll_common M23 X23 [1] [1]) =
     Inr ([2, 3], map Inr [3, 1, 2, 6, 4, 5]) \<and>
   result_elements (rot90 M23 X23 1 [0, 1]) = Inr ([3, 2], map Inr [3, 6, 2, 5, 1, 4])"
  by code_simp

text \<open>
  C10. \<open>Indexer_get\<close> reads slot 0 of its operand array before the loop over the
  other slots, so with no offset table the read is past the end of the operand array. The
  restride-and-gather path with an empty list of flip axes builds no table: on every
  well-formed array with at least one element (and rank at most 64) the first element
  visited makes that read.
\<close>

theorem indexer_reads_slot_zero:
  assumes "valid mem t" "numel t \<noteq> 0" "dim t \<le> 64"
  shows "Indexer_get \<lparr>num_indexers = 0, indexers = [], indexer_strides = []\<rparr> idx mem =
           Inl OutOfBounds \<and>
         flip_cpu_internal mem t [] = Inl OutOfBounds \<and>
         flip_cpu mem t [] = Inl OutOfBounds"
  using flip_without_axes[OF assms] by (simp add: Indexer_get_none)

theorem indexer_reads_slot_zero_witness:
  "valid M23 X23 \<and> numel X23 \<noteq> 0 \<and> dim X23 \<le> 64 \<and>
   Indexer_get \<lparr>num_indexers = 0, indexers = [], indexer_strides = []\<rparr> 0 M23 =
     Inl OutOfBounds \<and>
   flip_cpu_internal M23 X23 [] = Inl OutOfBounds \<and>
   flip_cpu M23 X23 [] = Inl OutOfBounds"
proof -
  have h: "valid M23 X23" "numel X23 \<noteq> 0" "dim X23 \<le> 64" by code_simp+
  show ?thesis using indexer_reads_slot_zero[OF h, of 0] h by simp
qed

text \<open>
  C9, as the source has it. \<open>atleast_3d\<close> turns a rank-1 array of size \<open>n\<close> into shape
  \<open>[1, n, 1]\<close>: one size-1 axis in front and one at the back. A rank-2 array of shape
  \<open>[m, n]\<close> becomes \<open>[m, n, 1]\<close>. The result is a view of the same buffer, no store is
  involved, and no array makes the operation fail.
\<close>

theorem atleast_3d_shapes:
  "(sizes t = [n] \<longrightarrow> map_sum id sizes (atleast_3d t) = Inr [1, n, 1]) \<and>
   (sizes t = [m, n] \<longrightarrow> map_sum id sizes (atleast_3d t) = Inr [m, n, 1]) \<and>
   is_ok (atleast_3d t) \<and> map_sum id buf (atleast_3d t) = Inr (buf t)"
proof -
  consider "length (sizes t) = 0" | "length (sizes t) = 1" | "length (sizes t) = 2"
    | "2 < length (sizes t)" by linarith
  then show ?thesis
  proof cases
    case 1
    then show ?thesis
      by (simp add: atleast_3d_def dim_def reshape_scalar_def is_ok_def)
  next
    case 2
    then obtain x where "sizes t = [x]" by (cases "sizes t") auto
    then show ?thesis
      by (simp add: atleast_3d_def dim_def unsqueeze_def maybe_wrap_dim_def is_ok_def)
  next
    case 3
    then obtain x y where "sizes t = [x, y]"
      by (cases "sizes t"; cases "tl (sizes t)") auto
    then show ?thesis
      by (simp add: atleast_3d_def dim_def unsqueeze_def maybe_wrap_dim_def is_ok_def)
  next
    case 4
    then show ?thesis
      by (auto simp: atleast_3d_def dim_def is_ok_def)
  qed
qed

theorem atleast_3d_shapes_witness:
  "sizes V3 = [3] \<and> map_sum id sizes (atleast_3d V3) = Inr [1, 3, 1] \<and>
   sizes X23 = [2, 3] \<and> map_sum id sizes (atleast_3d X23) = Inr [2, 3, 1] \<and>
   is_ok (atleast_3d V3) \<and> map_sum id buf (atleast_3d V3) = Inr (buf V3)"
  using atleast_3d_shapes[of V3 3 2] atleast_3d_shapes[of X23 3 2]
  by (simp add: V3_def X23_def)

text \<open>
  C9, as stated, fails: the rank-1 array \<open>[1, 2, 3]\<close> does not get its two new axes at the
  back (shape \<open>[3, 1, 1]\<close>); its shape becomes \<open>[1, 3, 1]\<close>.
\<close>

theorem atleast_3d_rank1_counterexample:
  "map_sum id sizes (atleast_3d V3) = Inr [1, 3, 1] \<and>
   map_sum id sizes (atleast_3d V3) \<noteq> Inr [3, 1, 1]"
  by code_simp

text \<open>
  C6, as the source has it. On a well-formed array, \<open>rot90\<close> fails with
  \<open>InvalidArgument\<close> in its own checks, which read only the rank and the axis list,
  whenever there are not exactly two rotation axes, the rank is below 2, the axes are equal,
  their distance is the rank, or one of them is out of range. It fails with
  \<open>InvalidArgument\<close> if and only if one of these conditions holds or the rank is above the
  width of the dimension bitset (64) while \<open>k\<close> is not a multiple of 4 (then \<open>flip\<close>
  rejects the rank). In every other case it returns a result.
\<close>

theorem rot90_error_iff:
  assumes "valid mem t" "dim t < 2 ^ 62"
  shows "(rot90_invalid (dim t) dims \<longrightarrow>
            rot90_check (dim t) dims = Inl InvalidArgument \<and>
            rot90 mem t k dims = Inl InvalidArgument) \<and>
         (rot90 mem t k dims = Inl InvalidArgument \<longleftrightarrow>
            rot90_invalid (dim t) dims \<or> (64 < dim t \<and> k mod 4 \<noteq> 0)) \<and>
         (is_ok (rot90 mem t k dims) \<longleftrightarrow>
            \<not> (rot90_invalid (dim t) dims \<or> (64 < dim t \<and> k mod 4 \<noteq> 0)))"
proof (cases "rot90_invalid (dim t) dims")
  case True
  have "rot90_check (dim t) dims = Inl InvalidArgument"
    by (rule rot90_invalid_fails(1)[OF True assms(2)])
  moreover have "rot90 mem t k dims = Inl InvalidArgument"
    by (rule rot90_invalid_fails(2)[OF True assms(2)])
  ultimately show ?thesis
    using True by (simp add: is_ok_def)
next
  case False
  then obtain d0 d1 where dims: "dims = [d0, d1]" using not_invalid_pair by blast
  have p: "\<not> rot90_invalid (dim t) [d0, d1]" using False dims by simp
  show ?thesis
  proof (cases "64 < dim t \<and> k mod 4 \<noteq> 0")
    case True
    then have "64 < dim t" "k mod 4 \<noteq> 0" by simp_all
    then have "rot90 mem t k [d0, d1] = Inl InvalidArgument"
      by (rule rot90_big[OF p assms(2)])
    then show ?thesis
      using True False dims by (simp add: is_ok_def)
  next
    case f: False
    then have "dim t \<le> 64 \<or> k mod 4 = 0" by auto
    then have "\<exists>m' out. rot90 mem t k [d0, d1] = Inr (m', out) \<and>
           sizes out = (if even k then sizes t
                        else swap_at (wrapped d0 (dim t)) (wrapped d1 (dim t)) (sizes t))"
      by (rule rot90_ok[OF assms(1) p assms(2)])
    then obtain m' out where "rot90 mem t k [d0, d1] = Inr (m', out)"
      by (elim exE conjE)
    then show ?thesis using False f dims by (simp add: is_ok_def)
  qed
qed

theorem rot90_error_iff_witness:
  "valid M23 X23 \<and> dim X23 < 2 ^ 62 \<and> rot90_invalid (dim X23) [1, 1] \<and>
   rot90_check (dim X23) [1, 1] = Inl InvalidArgument \<and>
   rot90 M23 X23 1 [1, 1] = Inl InvalidArgument \<and>
   is_ok (rot90 M23 X23 1 [0, 1]) = (\<not> (rot90_invalid (dim X23) [0, 1] \<or> (64 < dim X23 \<and> (1::int) mod 4 \<noteq> 0)))"
proof -
  have h: "valid M23 X23" "dim X23 < 2 ^ 62" by code_simp+
  have i: "rot90_invalid (dim X23) [1, 1]" by code_simp
  show ?thesis
    using rot90_error_iff[OF h, of "[1, 1]" 1] rot90_error_iff[OF h, of "[0, 1]" 1] h i
    by simp
qed

text \<open>
  C6, as stated, fails in the direction "only if": on an array of rank 65 with one element,
  \<open>rot90\<close> with \<open>k = 1\<close> and axes 0 and 1 passes every check of the claim and fails with
  \<open>InvalidArgument\<close>, raised by the dimension bitset inside \<open>flip\<close>.
\<close>

theorem rot90_rank65_counterexample:
  "valid M1 T65 \<and> rot90 M1 T65 1 [0, 1] = Inl InvalidArgument \<and>
   \<not> rot90_invalid (dim T65) [0, 1]"
  by code_simp

text \<open>
  C7, as the source has it. On every well-formed array without elements: \<open>flip\<close> with an
  axis list that the dimension bitset accepts returns an array of the same shape;
  single-axis \<open>roll\<close> returns the structural copy whatever the shift and the axis are (the
  axis size is never read and no remainder is computed); \<open>rot90\<close> with a valid pair of
  axes (rank at most 64) returns an array without elements whose shape is the input's for
  even \<open>k\<close> and the input's with the two rotation axes exchanged for odd \<open>k\<close>.
\<close>

theorem empty_tensor_ops:
  assumes "valid mem t" "numel t = 0"
  shows "(is_ok (dim_list_to_bitset dims (dim t)) \<longrightarrow>
            result_sizes (flip mem t dims) = Inr (sizes t)) \<and>
         roll_cpu rc mem t [s] [d] = clone mem t Preserve \<and>
         result_sizes (roll_cpu rc mem t [s] [d]) = Inr (sizes t) \<and>
         (\<not> rot90_invalid (dim t) [d0, d1] \<and> dim t \<le> 64 \<longrightarrow>
            result_sizes (rot90 mem t k [d0, d1]) =
              Inr (if even k then sizes t
                   else swap_at (wrapped d0 (dim t)) (wrapped d1 (dim t)) (sizes t)) \<and>
            prod_list (swap_at (wrapped d0 (dim t)) (wrapped d1 (dim t)) (sizes t)) = 0)"
proof (intro conjI impI)
  assume "is_ok (dim_list_to_bitset dims (dim t))"
  then show "result_sizes (flip mem t dims) = Inr (sizes t)"
    by (rule flip_empty[OF assms])
next
  show "roll_cpu rc mem t [s] [d] = clone mem t Preserve"
    by (rule roll_empty(1)[OF assms])
next
  show "result_sizes (roll_cpu rc mem t [s] [d]) = Inr (sizes t)"
    by (rule roll_empty(2)[OF assms])
next
  assume a: "\<not> rot90_invalid (dim t) [d0, d1] \<and> dim t \<le> 64"
  then show "result_sizes (rot90 mem t k [d0, d1]) =
              Inr (if even k then sizes t
                   else swap_at (wrapped d0 (dim t)) (wrapped d1 (dim t)) (sizes t))"
    using rot90_empty[OF assms(1)] by blast
next
  assume a: "\<not> rot90_invalid (dim t) [d0, d1] \<and> dim t \<le> 64"
  then have p: "\<not> rot90_invalid (dim t) [d0, d1]" by simp
  show "prod_list (swap_at (wrapped d0 (dim t)) (wrapped d1 (dim t)) (sizes t)) = 0"
    using wrapped_lt[OF valid_pair(1,2)[OF p]] wrapped_lt[OF valid_pair(3,4)[OF p]] assms(2)
    by (intro prod_list_swap) (simp_all add: numel_def)
qed

theorem empty_tensor_ops_witness:
  "valid ME E03 \<and> numel E03 = 0 \<and> is_ok (dim_list_to_bitset [1] (dim E03)) \<and>
   result_sizes (flip ME E03 [1]) = Inr [0, 3] \<and>
   roll_cpu no_roll_common ME E03 [1] [7] = clone ME E03 Preserve \<and>
   result_sizes (roll_cpu no_roll_common ME E03 [1] [7]) = Inr [0, 3] \<and>
   \<not> rot90_invalid (dim E03) [0, 1] \<and> dim E03 \<le> 64 \<and>
   result_sizes (rot90 ME E03 2 [0, 1]) = Inr [0, 3] \<and>
   result_sizes (rot90 ME E03 1 [0, 1]) = Inr [3, 0]"
proof -
  have h: "valid ME E03" "numel E03 = 0" by code_simp+
  have i: "is_ok (dim_list_to_bitset [1] (dim E03))" "\<not> rot90_invalid (dim E03) [0, 1]"
    "dim E03 \<le> 64" by code_simp+
  have s: "sizes E03 = [0, 3]" "wrapped 0 (dim E03) = 0" "wrapped 1 (dim E03) = 1"
    by code_simp+
  show ?thesis
    using empty_tensor_ops[OF h, of "[1]" no_roll_common 1 7 0 1 2]
          empty_tensor_ops[OF h, of "[1]" no_roll_common 1 7 0 1 1] h i
    by (simp add: s swap_at_def)
qed

text \<open>
  C7, as stated, fails for \<open>rot90\<close>: the array of shape \<open>[0, 3]\<close> rotated once in the
  plane of axes 0 and 1 has shape \<open>[3, 0]\<close>, not the shape of the input.
\<close>

theorem rot90_empty_shape_counterexample:
  "valid ME E03 \<and> numel E03 = 0 \<and> result_sizes (rot90 ME E03 1 [0, 1]) = Inr [3, 0] \<and>
   result_sizes (rot90 ME E03 1 [0, 1]) \<noteq> Inr (sizes E03)"
  by code_simp

text \<open>
  C5. For every well-formed array and every valid pair of rotation axes: \<open>rot90\<close> with
  \<open>k\<close> is \<open>rot90\<close> with \<open>k mod 4\<close>, for every integer \<open>k\<close>; rotating twice by one
  quarter turn gives a result equal (same shape, same elements) to rotating once by two; and
  rotating by two quarter turns is \<open>flip\<close> along the two axes. When the rank is above 64 all
  of them fail alike in the dimension bitset; otherwise they return results.
\<close>

theorem rot90_group_law:
  assumes "valid mem X" "\<not> rot90_invalid (dim X) dims" "dim X < 2 ^ 62"
  shows "rot90 mem X k dims = rot90 mem X (k mod 4) dims \<and>
         result_eq (ebind (rot90 mem X 1 dims) (\<lambda>(m, Y). rot90 m Y 1 dims))
           (rot90 mem X 2 dims) \<and>
         rot90 mem X 2 dims = flip mem X dims \<and>
         (is_ok (rot90 mem X 2 dims) \<longleftrightarrow> dim X \<le> 64)"
proof -
  obtain d0 d1 where dims: "dims = [d0, d1]" using not_invalid_pair[OF assms(2)] by blast
  have p: "\<not> rot90_invalid (dim X) [d0, d1]" using assms(2) dims by simp
  have chk: "rot90_check (dim X) [d0, d1] = Inr (d0, d1)"
    using rot90_check_pair[OF assms(3), of d0 d1] p by simp
  have 1: "rot90 mem X k dims = rot90 mem X (k mod 4) dims" by (rule rot90_mod)
  have 2: "result_eq (ebind (rot90 mem X 1 [d0, d1]) (\<lambda>(m, Y). rot90 m Y 1 [d0, d1]))
           (rot90 mem X 2 [d0, d1])"
  proof (cases "dim X \<le> 64")
    case True
    then show ?thesis by (rule rot90_twice[OF assms(1) p])
  next
    case False
    then have "64 < dim X" by simp
    then show ?thesis by (rule rot90_twice_big[OF p assms(3)])
  qed
  have 3: "rot90 mem X 2 [d0, d1] = flip mem X [d0, d1]"
    by (simp add: rot90_unfold[OF chk])
  have 4: "is_ok (rot90 mem X 2 [d0, d1]) \<longleftrightarrow> dim X \<le> 64"
  proof (cases "dim X \<le> 64")
    case True
    then have "dim X \<le> 64 \<or> (2::int) mod 4 = 0" by simp
    then have "\<exists>m' out. rot90 mem X 2 [d0, d1] = Inr (m', out) \<and>
           sizes out = (if even (2::int) then sizes X
                        else swap_at (wrapped d0 (dim X)) (wrapped d1 (dim X)) (sizes X))"
      by (rule rot90_ok[OF assms(1) p assms(3)])
    then obtain m' out where "rot90 mem X 2 [d0, d1] = Inr (m', out)" by (elim exE conjE)
    then show ?thesis using True by (simp add: is_ok_def)
  next
    case False
    then have "64 < dim X" by simp
    then have "rot90 mem X 2 [d0, d1] = Inl InvalidArgument"
      by (rule rot90_big[OF p assms(3)]) simp
    then show ?thesis using False by (simp add: is_ok_def)
  qed
  show ?thesis using 1 2 3 4 by (simp add: dims)
qed

theorem rot90_group_law_witness:
  "valid M23 X23 \<and> \<not> rot90_invalid (dim X23) [0, 1] \<and> dim X23 < 2 ^ 62 \<and>
   rot90 M23 X23 (- 3) [0, 1] = rot90 M23 X23 1 [0, 1] \<and>
   result_eq (ebind (rot90 M23 X23 1 [0, 1]) (\<lambda>(m, Y). rot90 m Y 1 [0, 1]))
     (rot90 M23 X23 2 [0, 1]) \<and>
   rot90 M23 X23 2 [0, 1] = flip M23 X23 [0, 1] \<and>
   is_ok (rot90 M23 X23 2 [0, 1])"
proof -
  have h: "valid M23 X23" "\<not> rot90_invalid (dim X23) [0, 1]" "dim X23 < 2 ^ 62"
    by code_simp+
  have d: "dim X23 \<le> 64" by code_simp
  note g = rot90_group_law[OF h, of "- 3"]
  have g1: "rot90 M23 X23 (- 3) [0, 1] = rot90 M23 X23 1 [0, 1]"
    using conjunct1[OF g] by simp
  note g2 = conjunct1[OF conjunct2[OF g]]
  note g3 = conjunct1[OF conjunct2[OF conjunct2[OF g]]]
  have g4: "is_ok (rot90 M23 X23 2 [0, 1])"
    using conjunct2[OF conjunct2[OF conjunct2[OF g]]] d by (rule iffD2)
  show ?thesis
    by (intro conjI h g1 g2 g3 g4)
qed

text \<open>
  C8. On every well-formed array (contiguous or not, with or without elements), whenever
  \<open>flip_old_cpu\<close>, \<open>flip\<close> or single-axis \<open>roll_cpu\<close> returns a result, the result has
  the shape of the input, is contiguous, and lives in a buffer that did not exist before the
  call (so it is not the input's buffer), while every buffer that existed is unchanged.
\<close>

theorem flip_roll_fresh_output:
  assumes "valid mem t"
  shows "result_fresh mem t (flip_old_cpu mem t dims) \<and>
         result_fresh mem t (flip mem t dims) \<and>
         result_fresh mem t (roll_cpu rc mem t [s] [d])"
proof (intro conjI)
  show "result_fresh mem t (flip_old_cpu mem t dims)"
    using flip_old_result[OF assms]
    by (cases "flip_old_cpu mem t dims") (auto simp: result_fresh_def)
  show "result_fresh mem t (flip mem t dims)"
    using flip_result[OF assms]
    by (cases "flip mem t dims") (auto simp: result_fresh_def)
  show "result_fresh mem t (roll_cpu rc mem t [s] [d])"
    using roll_result[OF assms]
    by (cases "roll_cpu rc mem t [s] [d]") (auto simp: result_fresh_def)
qed

theorem flip_roll_fresh_output_witness:
  "valid M23 X23 \<and>
   is_ok (flip_old_cpu M23 X23 [1]) \<and> result_fresh M23 X23 (flip_old_cpu M23 X23 [1]) \<and>
   is_ok (flip M23 X23 [1]) \<and> result_fresh M23 X23 (flip M23 X23 [1]) \<and>
   is_ok (roll_cpu no_roll_common M23 X23 [1] [1]) \<and>
   result_fresh M23 X23 (roll_cpu no_roll_common M23 X23 [1] [1])"
proof -
  have h: "valid M23 X23" by code_simp
  have ok: "is_ok (flip_old_cpu M23 X23 [1])" "is_ok (flip M23 X23 [1])"
    "is_ok (roll_cpu no_roll_common M23 X23 [1] [1])" by code_simp+
  note g = flip_roll_fresh_output[OF h, of "[1]" no_roll_common 1 1]
  show ?thesis
    by (intro conjI h ok conjunct1[OF g] conjunct1[OF conjunct2[OF g]]
        conjunct2[OF conjunct2[OF g]])
qed

text \<open>
  C4. The claim holds whenever the difference \<open>n - s\<close> fits in 64 bits (\<open>roll_split\<close>). It
  fails where the subtraction \<^verbatim>\<open>size - shifts[0]\<close> overflows: for the vector \<open>[1, 2, 3]\<close> and
  the shift \<open>- 2^63\<close>, \<open>(n - s) mod n\<close> is 2 and the concatenation of \<open>[2, 3)\<close> and
  \<open>[0, 2)\<close> is \<open>[3, 1, 2]\<close>, while the wrapped difference gives start 1 and the result
  \<open>[2, 3, 1]\<close>.
\<close>

theorem roll_shift_overflow:
  "is_int64 (- (2 ^ 63)) \<and> \<not> is_int64 (3 - (- (2 ^ 63))) \<and>
   (3 - (- (2 ^ 63))) mod 3 = (2 :: int) \<and>
   result_elements (roll_cpu no_roll_common MV3 V3 [- (2 ^ 63)] [0]) =
     Inr ([3], map Inr [2, 3, 1]) \<and>
   result_elements (ebind (narrow V3 0 2 1) (\<lambda>t0. ebind (narrow V3 0 0 2)
      (\<lambda>t1. cat MV3 [t0, t1] 0))) = Inr ([3], map Inr [3, 1, 2])"
  by code_simp

end
